theory Spec2Isabelle
  imports Complex_Main "HOL-Library.Char_ord" "HOL-Library.List_Lexorder" "HOL-Library.Multiset"
begin

section \<open>Data model\<close>

text \<open>
  The repository works on pandas data frames. A data frame is modelled as the list of its
  column names together with the ordered list of its records, each record a map from column
  name to cell. A cell is a string, a number, the float not-a-number or Python's
  \<^verbatim>\<open>None\<close>; the last two are what pandas calls missing (\<^verbatim>\<open>isna\<close>).
  The type of numbers is a parameter: nothing below computes with them, they are only
  compared and printed.
\<close>

datatype error = KeyError | ValueError | TypeError

datatype 'n cell = CStr string | CNum 'n | CNaN | CNone

type_synonym 'n row = "string \<rightharpoonup> 'n cell"

record 'n dataframe =
  columns :: "string list"
  records :: "'n row list"

fun isna :: "'n cell \<Rightarrow> bool" where
  "isna CNaN = True"
| "isna CNone = True"
| "isna _ = False"

text \<open>A record that has no entry for a column reads as not-a-number there, as in pandas.\<close>

definition at_col :: "string \<Rightarrow> 'n row \<Rightarrow> 'n cell" where
  "at_col c r = (case r c of Some v \<Rightarrow> v | None \<Rightarrow> CNaN)"

text \<open>
  The order pandas sorts keys by: numbers by value, strings by code point, numbers before
  strings where a grouping key column mixes both, missing values after everything else.
\<close>

fun cell_le :: "('n::linorder) cell \<Rightarrow> 'n cell \<Rightarrow> bool" where
  "cell_le (CNum a) (CNum b) = (a \<le> b)"
| "cell_le (CNum a) (CStr t) = True"
| "cell_le (CStr s) (CNum b) = False"
| "cell_le (CStr s) (CStr t) = (s \<le> t)"
| "cell_le x CNaN = True"
| "cell_le x CNone = True"
| "cell_le CNaN y = False"
| "cell_le CNone y = False"

fun insort_by :: "('a \<Rightarrow> 'a \<Rightarrow> bool) \<Rightarrow> 'a \<Rightarrow> 'a list \<Rightarrow> 'a list" where
  "insort_by le x [] = [x]"
| "insort_by le x (y # ys) = (if le x y then x # y # ys else y # insort_by le x ys)"

definition sort_by :: "('a \<Rightarrow> 'a \<Rightarrow> bool) \<Rightarrow> 'a list \<Rightarrow> 'a list" where
  "sort_by le xs = foldr (insort_by le) xs []"

section \<open>data_processing.py\<close>

subsection \<open>Sorting a frame by one column\<close>

text \<open>
  \<^verbatim>\<open>df.sort_values(by=c, ascending=a).reset_index(drop=True)\<close>: a missing column is a
  \<^verbatim>\<open>KeyError\<close>; a column holding both strings and numbers cannot be compared and is a
  \<^verbatim>\<open>TypeError\<close>; otherwise the records with a value come first, in ascending or
  descending order of it, and the records with a missing value come last in either
  direction. Records with equal keys keep their order here; nothing proved below depends
  on the order of ties.
\<close>

fun is_str :: "'n cell \<Rightarrow> bool" where
  "is_str (CStr s) = True"
| "is_str _ = False"

fun is_num :: "'n cell \<Rightarrow> bool" where
  "is_num (CNum a) = True"
| "is_num _ = False"

definition mixed :: "'n cell list \<Rightarrow> bool" where
  "mixed vs = ((\<exists>v \<in> set vs. is_str v) \<and> (\<exists>v \<in> set vs. is_num v))"

definition key_le :: "string \<Rightarrow> bool \<Rightarrow> ('n::linorder) row \<Rightarrow> 'n row \<Rightarrow> bool" where
  "key_le c ascending r s =
     (if ascending then cell_le (at_col c r) (at_col c s) else cell_le (at_col c s) (at_col c r))"

definition sort_values :: "('n::linorder) dataframe \<Rightarrow> string \<Rightarrow> bool \<Rightarrow> error + 'n dataframe" where
  "sort_values df c ascending =
     (if c \<notin> set (columns df) then Inl KeyError
      else if mixed (map (at_col c) (records df)) then Inl TypeError
      else Inr (df\<lparr>records :=
             sort_by (key_le c ascending) (filter (\<lambda>r. \<not> isna (at_col c r)) (records df))
             @ filter (\<lambda>r. isna (at_col c r)) (records df)\<rparr>))"

text \<open>
  What it means for a list of records to be ordered by a column: of two records, the later
  one is missing there, or both have a value and the two values are in the requested order.
\<close>

definition ordered_by :: "string \<Rightarrow> bool \<Rightarrow> ('n::linorder) row list \<Rightarrow> bool" where
  "ordered_by c ascending rs =
     sorted_wrt (\<lambda>r s. isna (at_col c s) \<or> (\<not> isna (at_col c r) \<and> key_le c ascending r s)) rs"

subsection \<open>Sliding-window batches\<close>

text \<open>
  \<^verbatim>\<open>xs[a:b]\<close> and \<^verbatim>\<open>df.iloc[a:b]\<close>: a negative bound counts from the end, and
  both bounds are clipped to the length.
\<close>

definition clip_index :: "nat \<Rightarrow> int \<Rightarrow> nat" where
  "clip_index n i = (if i < 0 then nat (max (i + int n) 0) else min (nat i) n)"

definition iloc :: "'a list \<Rightarrow> int \<Rightarrow> int \<Rightarrow> 'a list" where
  "iloc xs a b = take (clip_index (length xs) b - clip_index (length xs) a)
                      (drop (clip_index (length xs) a) xs)"

text \<open>
  The \<^verbatim>\<open>while start < n\<close> loop of \<^verbatim>\<open>sliding_window_batches\<close>. The source does not
  bound the number of iterations, so the loop is a partial function: \<open>None\<close> means that
  it does not return.
\<close>

partial_function (option) window_loop ::
  "'a list \<Rightarrow> int \<Rightarrow> int \<Rightarrow> int \<Rightarrow> 'a list list \<Rightarrow> 'a list list option" where
  "window_loop rs window_size step start batches =
     (if start < int (length rs) then
        (if min (start + window_size) (int (length rs)) = int (length rs)
         then Some (batches @ [iloc rs start (min (start + window_size) (int (length rs)))])
         else window_loop rs window_size step (start + step)
                (batches @ [iloc rs start (min (start + window_size) (int (length rs)))]))
      else Some batches)"

definition sliding_window_batches ::
  "('n::linorder) dataframe \<Rightarrow> string \<Rightarrow> int \<Rightarrow> int \<Rightarrow> bool \<Rightarrow> (error + 'n dataframe list) option" where
  "sliding_window_batches df time_col window_size step sort_ascending =
     (case sort_values df time_col sort_ascending of
        Inl e \<Rightarrow> Some (Inl e)
      | Inr sorted_df \<Rightarrow>
          map_option (\<lambda>bs. Inr (map (\<lambda>b. sorted_df\<lparr>records := b\<rparr>) bs))
            (window_loop (records sorted_df) window_size step 0 []))"

subsection \<open>Cleaning categorical columns\<close>

text \<open>
  Python's \<^verbatim>\<open>str.strip()\<close> removes leading and trailing whitespace. Characters are
  code points below 256 here; these are the ones \<^verbatim>\<open>str.isspace\<close> accepts.
\<close>

definition is_space :: "char \<Rightarrow> bool" where
  "is_space ch = (ch \<in> set [CHR 0x09, CHR 0x0A, CHR 0x0B, CHR 0x0C, CHR 0x0D, CHR 0x1C,
                               CHR 0x1D, CHR 0x1E, CHR 0x1F, CHR 0x20, CHR 0x85, CHR 0xA0])"

definition py_strip :: "string \<Rightarrow> string" where
  "py_strip s = rev (dropWhile is_space (rev (dropWhile is_space s)))"

text \<open>
  \<^verbatim>\<open>str(v)\<close> of a cell. How a number prints is the parameter \<open>str_num\<close>.
\<close>

fun py_str :: "('n \<Rightarrow> string) \<Rightarrow> 'n cell \<Rightarrow> string" where
  "py_str str_num (CStr s) = s"
| "py_str str_num (CNum a) = str_num a"
| "py_str str_num CNaN = ''nan''"
| "py_str str_num CNone = ''None''"

definition astype_str :: "('n \<Rightarrow> string) \<Rightarrow> 'n cell \<Rightarrow> 'n cell" where
  "astype_str str_num v = CStr (py_str str_num v)"

text \<open>\<^verbatim>\<open>.str.strip()\<close> strips a string and gives not-a-number for anything else.\<close>

fun str_strip :: "'n cell \<Rightarrow> 'n cell" where
  "str_strip (CStr s) = CStr (py_strip s)"
| "str_strip (CNum a) = CNaN"
| "str_strip CNaN = CNaN"
| "str_strip CNone = CNone"

text \<open>\<^verbatim>\<open>.replace({...})\<close> replaces a value that equals a key of the dictionary.\<close>

fun replace_cell :: "(string \<times> string) list \<Rightarrow> 'n cell \<Rightarrow> 'n cell" where
  "replace_cell d (CStr s) = (case map_of d s of Some t \<Rightarrow> CStr t | None \<Rightarrow> CStr s)"
| "replace_cell d v = v"

definition fillna :: "'n cell \<Rightarrow> 'n cell \<Rightarrow> 'n cell" where
  "fillna v x = (if isna x then v else x)"

definition clean_cell :: "('n \<Rightarrow> string) \<Rightarrow> 'n cell \<Rightarrow> 'n cell" where
  "clean_cell str_num v =
     fillna (CStr ''Missing'')
       (replace_cell [([], ''Missing''), (''nan'', ''Missing''), (''None'', ''Missing'')]
          (str_strip (astype_str str_num v)))"

text \<open>\<^verbatim>\<open>df[c] = f(df[c])\<close> for a column that exists.\<close>

definition assign_col :: "'n dataframe \<Rightarrow> string \<Rightarrow> ('n cell \<Rightarrow> 'n cell) \<Rightarrow> 'n dataframe" where
  "assign_col df c f = df\<lparr>records := map (\<lambda>r. r(c \<mapsto> f (at_col c r))) (records df)\<rparr>"

fun clean_categorical_columns ::
  "('n \<Rightarrow> string) \<Rightarrow> 'n dataframe \<Rightarrow> string list \<Rightarrow> error + 'n dataframe" where
  "clean_categorical_columns str_num df [] = Inr df"
| "clean_categorical_columns str_num df (c # cs) =
     (if c \<notin> set (columns df) then Inl KeyError
      else clean_categorical_columns str_num (assign_col df c (clean_cell str_num)) cs)"

subsection \<open>Batches by key\<close>

text \<open>
  \<^verbatim>\<open>df.groupby(c)\<close> with pandas' defaults (\<^verbatim>\<open>sort=True\<close>, \<^verbatim>\<open>dropna=True\<close>): one
  group for each value of the column that is not missing, the groups in ascending order of
  that value, each group holding its records in their original order.
\<close>

definition group_keys :: "('n::linorder) cell list \<Rightarrow> 'n cell list" where
  "group_keys vs = sort_by cell_le (remdups (filter (\<lambda>v. \<not> isna v) vs))"

definition groupby :: "('n::linorder) dataframe \<Rightarrow> string \<Rightarrow> ('n cell \<times> 'n dataframe) list" where
  "groupby df c =
     map (\<lambda>k. (k, df\<lparr>records := filter (\<lambda>r. at_col c r = k) (records df)\<rparr>))
       (group_keys (map (at_col c) (records df)))"

definition define_batches_by_column ::
  "('n::linorder) dataframe \<Rightarrow> string \<Rightarrow> error + 'n dataframe list" where
  "define_batches_by_column df batch_col =
     (if batch_col \<notin> set (columns df) then Inl KeyError
      else Inr (map snd (groupby df batch_col)))"

text \<open>The order of first occurrence, which the specification names for the batches.\<close>

definition first_occurrence_keys :: "'n cell list \<Rightarrow> 'n cell list" where
  "first_occurrence_keys vs = rev (remdups (rev (filter (\<lambda>v. \<not> isna v) vs)))"

section \<open>analysis.py\<close>

subsection \<open>Contingency tables\<close>

text \<open>
  A contingency table is the data frame \<^verbatim>\<open>pd.crosstab\<close> returns: row labels, column
  labels and one row of counts for each row label. Counts are natural numbers.
\<close>

record 'l table =
  index :: "'l list"
  col_labels :: "'l list"
  counts :: "nat list list"

definition shape :: "'l table \<Rightarrow> nat \<times> nat" where
  "shape t = (length (index t), length (col_labels t))"

definition table_size :: "'l table \<Rightarrow> nat" where
  "table_size t = length (index t) * length (col_labels t)"

definition total :: "nat list list \<Rightarrow> nat" where
  "total obs = sum_list (map sum_list obs)"

definition row_sums :: "nat list list \<Rightarrow> nat list" where
  "row_sums obs = map sum_list obs"

definition col_sums :: "nat \<Rightarrow> nat list list \<Rightarrow> nat list" where
  "col_sums c obs = map (\<lambda>j. sum_list (map (\<lambda>r. r ! j) obs)) [0..<c]"

text \<open>The counts form a rectangle of the table's shape, as in every data frame.\<close>

definition well_formed :: "'l table \<Rightarrow> bool" where
  "well_formed t =
     (length (counts t) = length (index t)
      \<and> list_all (\<lambda>r. length r = length (col_labels t)) (counts t))"

text \<open>
  \<^verbatim>\<open>pd.crosstab(a, b)\<close>: the pairs with a missing component are dropped; the labels are
  the values that remain, in ascending order; a cell counts the pairs equal to its labels.
\<close>

definition crosstab :: "('n::linorder) cell list \<Rightarrow> 'n cell list \<Rightarrow> 'n cell table" where
  "crosstab a b =
     (let pairs = filter (\<lambda>p. \<not> isna (fst p) \<and> \<not> isna (snd p)) (zip a b);
          idx = group_keys (map fst pairs);
          cols = group_keys (map snd pairs)
      in \<lparr>index = idx, col_labels = cols,
          counts = map (\<lambda>i. map (\<lambda>j. length (filter (\<lambda>p. p = (i, j)) pairs)) cols) idx\<rparr>)"

definition build_contingency_table ::
  "('n::linorder) dataframe \<Rightarrow> string \<Rightarrow> string \<Rightarrow> error + 'n cell table" where
  "build_contingency_table df row col =
     (if row \<notin> set (columns df) \<or> col \<notin> set (columns df) then Inl KeyError
      else Inr (crosstab (map (at_col row) (records df)) (map (at_col col) (records df))))"

subsection \<open>Floating-point results\<close>

text \<open>
  A float is not-a-number or a real number: rounding and the infinities are left out.
  Comparisons with not-a-number are false, as in Python.
\<close>

datatype pyfloat = NaN | Fin real

fun flt :: "pyfloat \<Rightarrow> pyfloat \<Rightarrow> bool" where
  "flt (Fin a) (Fin b) = (a < b)"
| "flt _ _ = False"

fun fadd :: "pyfloat \<Rightarrow> pyfloat \<Rightarrow> pyfloat" where
  "fadd (Fin a) (Fin b) = Fin (a + b)"
| "fadd _ _ = NaN"

definition fsum :: "pyfloat list \<Rightarrow> pyfloat" where
  "fsum xs = foldr fadd xs (Fin 0)"

fun fmul :: "pyfloat \<Rightarrow> nat \<Rightarrow> pyfloat" where
  "fmul (Fin a) m = Fin (a * real m)"
| "fmul NaN m = NaN"

fun fdiv :: "pyfloat \<Rightarrow> nat \<Rightarrow> pyfloat" where
  "fdiv (Fin a) d = Fin (a / real d)"
| "fdiv NaN d = NaN"

text \<open>Python's \<^verbatim>\<open>min(a, b)\<close> returns \<open>b\<close> only when \<open>b < a\<close>.\<close>

definition py_min :: "pyfloat \<Rightarrow> pyfloat \<Rightarrow> pyfloat" where
  "py_min a b = (if flt b a then b else a)"

text \<open>\<^verbatim>\<open>math.sqrt\<close> raises \<^verbatim>\<open>ValueError\<close> below zero.\<close>

fun py_sqrt :: "pyfloat \<Rightarrow> error + pyfloat" where
  "py_sqrt NaN = Inr NaN"
| "py_sqrt (Fin a) = (if a < 0 then Inl ValueError else Inr (Fin (sqrt a)))"

subsection \<open>The chi-square test of scipy\<close>

text \<open>
  \<^verbatim>\<open>scipy.stats.chi2_contingency\<close>. It raises \<^verbatim>\<open>ValueError\<close> for a table with no
  cell, and for a table where an expected frequency is zero. The expected frequency of a
  cell is its row total times its column total over the grand total; for a grand total of
  zero that is zero over zero, not-a-number, which does not compare equal to zero. The
  degrees of freedom are computed from the shape. With zero degrees of freedom the statistic
  is 0 and the p-value 1; otherwise they come from the chi-square distribution, the
  parameter \<open>stat\<close> here (given the continuity-correction flag and the observed counts).
\<close>

definition expected_freq :: "nat \<Rightarrow> nat \<Rightarrow> nat list list \<Rightarrow> pyfloat list list" where
  "expected_freq r c obs =
     (if total obs = 0 then replicate r (replicate c NaN)
      else map (\<lambda>rs. map (\<lambda>cs. Fin (real rs * real cs / real (total obs))) (col_sums c obs))
             (row_sums obs))"

definition chi2_contingency ::
  "(bool \<Rightarrow> nat list list \<Rightarrow> pyfloat \<times> pyfloat) \<Rightarrow> bool \<Rightarrow> 'l table
     \<Rightarrow> error + (pyfloat \<times> pyfloat \<times> int \<times> pyfloat list list)" where
  "chi2_contingency stat correction t =
     (let r = length (index t); c = length (col_labels t);
          expected = expected_freq r c (counts t);
          dof = int (r * c) - int (r + c) + 2 - 1
      in if r * c = 0 then Inl ValueError
         else if Fin 0 \<in> set (concat expected) then Inl ValueError
         else if dof = 0 then Inr (Fin 0, Fin 1, dof, expected)
         else Inr (fst (stat correction (counts t)), snd (stat correction (counts t)),
                   dof, expected))"

subsection \<open>The tests of the repository\<close>

record chi_square_result =
  chi2 :: pyfloat
  p_value :: pyfloat
  dof :: int
  expected :: "pyfloat list list"

definition chi_square_test ::
  "(bool \<Rightarrow> nat list list \<Rightarrow> pyfloat \<times> pyfloat) \<Rightarrow> 'l table \<Rightarrow> bool
     \<Rightarrow> error + chi_square_result" where
  "chi_square_test stat t correction =
     (if table_size t = 0 then Inl ValueError
      else case chi2_contingency stat correction t of
             Inl e \<Rightarrow> Inl e
           | Inr (s, p, d, ex) \<Rightarrow> Inr \<lparr>chi2 = s, p_value = p, dof = d, expected = ex\<rparr>)"

text \<open>
  \<^verbatim>\<open>scipy.stats.fisher_exact\<close> is the parameter \<open>fisher_exact\<close>: on a 2 by 2 table of
  counts it returns the odds ratio and the p-value.
\<close>

record fisher_result =
  oddsratio :: pyfloat
  fisher_p_value :: pyfloat

definition fisher_test_if_applicable ::
  "(nat list list \<Rightarrow> pyfloat \<times> pyfloat) \<Rightarrow> 'l table \<Rightarrow> error + fisher_result option" where
  "fisher_test_if_applicable fisher_exact t =
     (if shape t = (2, 2)
      then Inr (Some \<lparr>oddsratio = fst (fisher_exact (counts t)),
                      fisher_p_value = snd (fisher_exact (counts t))\<rparr>)
      else Inr None)"

definition cramers_v ::
  "(bool \<Rightarrow> nat list list \<Rightarrow> pyfloat \<times> pyfloat) \<Rightarrow> 'l table \<Rightarrow> error + pyfloat" where
  "cramers_v stat t =
     (case chi2_contingency stat True t of
        Inl e \<Rightarrow> Inl e
      | Inr (s, p, d, ex) \<Rightarrow>
          let n = total (counts t) in
          if n = 0 then Inr NaN
          else let k = min (fst (shape t)) (snd (shape t)) in
               if k = 1 then Inr (Fin 0)
               else py_sqrt (fdiv s (n * (k - 1))))"

text \<open>
  \<^verbatim>\<open>table.loc[labels, :]\<close>: for each label in turn, the rows carrying it.
\<close>

definition loc_rows :: "'l table \<Rightarrow> 'l list \<Rightarrow> 'l table" where
  "loc_rows t labels =
     \<lparr>index = concat (map (\<lambda>l. filter (\<lambda>x. x = l) (index t)) labels),
      col_labels = col_labels t,
      counts = concat (map (\<lambda>l. map snd (filter (\<lambda>p. fst p = l) (zip (index t) (counts t)))) labels)\<rparr>"

text \<open>The pairs \<open>(i, j)\<close> of the two nested \<^verbatim>\<open>for\<close> loops, in the order the loops visit them.\<close>

definition row_pairs :: "nat \<Rightarrow> (nat \<times> nat) list" where
  "row_pairs n = concat (map (\<lambda>i. map (\<lambda>j. (i, j)) [Suc i..<n]) [0..<n])"

text \<open>Running a step that may raise over a list: the first error ends the loop.\<close>

fun traverse :: "('a \<Rightarrow> error + 'b) \<Rightarrow> 'a list \<Rightarrow> error + 'b list" where
  "traverse f [] = Inr []"
| "traverse f (x # xs) =
     (case f x of
        Inl e \<Rightarrow> Inl e
      | Inr y \<Rightarrow> (case traverse f xs of Inl e \<Rightarrow> Inl e | Inr ys \<Rightarrow> Inr (y # ys)))"

record 'l posthoc_row =
  row1 :: 'l
  row2 :: 'l
  pair_chi2 :: pyfloat
  p_raw :: pyfloat
  p_adj :: pyfloat
  significant :: bool

definition pair_test ::
  "(bool \<Rightarrow> nat list list \<Rightarrow> pyfloat \<times> pyfloat) \<Rightarrow> 'l table \<Rightarrow> nat \<times> nat
     \<Rightarrow> error + ('l \<times> 'l \<times> pyfloat \<times> pyfloat)" where
  "pair_test stat t ij =
     (let rows = index t; i = fst ij; j = snd ij in
      case chi2_contingency stat True (loc_rows t [rows ! i, rows ! j]) of
        Inl e \<Rightarrow> Inl e
      | Inr (s, p, d, ex) \<Rightarrow> Inr (rows ! i, rows ! j, s, p))"

definition bonferroni :: "nat \<Rightarrow> pyfloat \<Rightarrow> 'l \<times> 'l \<times> pyfloat \<times> pyfloat \<Rightarrow> 'l posthoc_row" where
  "bonferroni m alpha r =
     (case r of (a, b, s, p) \<Rightarrow>
        let adj = (if m > 0 then py_min (Fin 1) (fmul p m) else p)
        in \<lparr>row1 = a, row2 = b, pair_chi2 = s, p_raw = p, p_adj = adj,
            significant = flt adj alpha\<rparr>)"

definition pairwise_chi2_posthoc ::
  "(bool \<Rightarrow> nat list list \<Rightarrow> pyfloat \<times> pyfloat) \<Rightarrow> 'l table \<Rightarrow> pyfloat
     \<Rightarrow> error + 'l posthoc_row list" where
  "pairwise_chi2_posthoc stat t alpha =
     (case traverse (pair_test stat t) (row_pairs (length (index t))) of
        Inl e \<Rightarrow> Inl e
      | Inr results \<Rightarrow> Inr (map (bonferroni (length results) alpha) results))"

section \<open>Example inputs\<close>

definition example_frame :: "int dataframe" where
  "example_frame =
     \<lparr>columns = [''t''],
      records = [[''t'' \<mapsto> CNum 3], [''t'' \<mapsto> CNum 1], [''t'' \<mapsto> CNum 2]]\<rparr>"

definition example_sorted :: "int dataframe" where
  "example_sorted =
     \<lparr>columns = [''t''],
      records = [[''t'' \<mapsto> CNum 1], [''t'' \<mapsto> CNum 2], [''t'' \<mapsto> CNum 3]]\<rparr>"

definition keys_frame :: "int dataframe" where
  "keys_frame =
     \<lparr>columns = [''k''], records = [[''k'' \<mapsto> CStr ''B''], [''k'' \<mapsto> CStr ''A'']]\<rparr>"

definition five_frame :: "int dataframe" where
  "five_frame =
     \<lparr>columns = [''k'', ''x''],
      records = [[''k'' \<mapsto> CStr ''A'', ''x'' \<mapsto> CNum 1], [''k'' \<mapsto> CStr ''A'', ''x'' \<mapsto> CNum 2],
                 [''k'' \<mapsto> CStr ''B'', ''x'' \<mapsto> CNum 3], [''k'' \<mapsto> CStr ''B'', ''x'' \<mapsto> CNum 4],
                 [''k'' \<mapsto> CStr ''B'', ''x'' \<mapsto> CNum 5]]\<rparr>"

definition gap_frame :: "int dataframe" where
  "gap_frame =
     \<lparr>columns = [''a'', ''b''],
      records = [[''a'' \<mapsto> CStr ''x'', ''b'' \<mapsto> CStr ''u''], [''a'' \<mapsto> CStr ''y'', ''b'' \<mapsto> CNaN]]\<rparr>"

definition raw_frame :: "int dataframe" where
  "raw_frame =
     \<lparr>columns = [''c''],
      records = [[''c'' \<mapsto> CStr '' a ''], [''c'' \<mapsto> CStr ''nan''], [''c'' \<mapsto> CNaN],
                 [''c'' \<mapsto> CNum 42]]\<rparr>"

text \<open>
  When the chi-square test of the two rows \<open>ri\<close> and \<open>rj\<close> of a table with \<open>c\<close> columns
  does not raise: there is a column, and either both rows are zero throughout or both row
  totals and every column total of the pair are positive.
\<close>

definition pair_defined :: "nat \<Rightarrow> nat list \<Rightarrow> nat list \<Rightarrow> bool" where
  "pair_defined c ri rj =
     (0 < c \<and> (sum_list ri + sum_list rj = 0
              \<or> (0 < sum_list ri \<and> 0 < sum_list rj \<and> list_all (\<lambda>k. 0 < ri ! k + rj ! k) [0..<c])))"

definition spec_table :: "string table" where
  "spec_table = \<lparr>index = [''r1'', ''r2''], col_labels = [''c1'', ''c2''],
                 counts = [[10, 20], [30, 15]]\<rparr>"

definition empty_table :: "string table" where
  "empty_table = \<lparr>index = [], col_labels = [], counts = []\<rparr>"

definition zero_table :: "string table" where
  "zero_table = \<lparr>index = [''r1''], col_labels = [''c1'', ''c2''], counts = [[0, 0]]\<rparr>"

definition one_row_table :: "string table" where
  "one_row_table = \<lparr>index = [''r1''], col_labels = [''c1'', ''c2''], counts = [[3, 4]]\<rparr>"

definition one_row_zero_cell_table :: "string table" where
  "one_row_zero_cell_table =
     \<lparr>index = [''r1''], col_labels = [''c1'', ''c2''], counts = [[3, 0]]\<rparr>"

definition zero_column_table :: "string table" where
  "zero_column_table = \<lparr>index = [''r1'', ''r2''], col_labels = [''c1'', ''c2''],
                        counts = [[1, 0], [2, 0]]\<rparr>"

definition three_row_table :: "string table" where
  "three_row_table = \<lparr>index = [''r1'', ''r2'', ''r3''], col_labels = [''c1'', ''c2''],
                      counts = [[1, 0], [1, 0], [0, 1]]\<rparr>"

definition full_table :: "string table" where
  "full_table = \<lparr>index = [''r1'', ''r2'', ''r3''], col_labels = [''c1'', ''c2''],
                 counts = [[1, 2], [3, 4], [5, 6]]\<rparr>"

section \<open>Properties of the sliding-window partitioner\<close>

lemma iloc_window:
  assumes "0 \<le> start" "start < int (length rs)" "1 \<le> ws"
  shows "iloc rs start (min (start + ws) (int (length rs))) = take (nat ws) (drop (nat start) rs)"
proof -
  let ?n = "length rs"
  have a: "clip_index ?n start = nat start"
    using assms by (simp add: clip_index_def)
  have b: "clip_index ?n (min (start + ws) (int ?n)) = min (nat (start + ws)) ?n"
    using assms by (auto simp: clip_index_def min_def)
  have "min (nat (start + ws)) ?n - nat start = min (nat ws) (?n - nat start)"
    using assms by (auto simp: min_def nat_add_distrib)
  moreover have "take (min (nat ws) (?n - nat start)) (drop (nat start) rs)
                 = take (nat ws) (drop (nat start) rs)"
    by (cases "nat ws \<le> ?n - nat start") (simp_all add: min_def)
  ultimately show ?thesis
    unfolding iloc_def a b by simp
qed

lemma window_loop_step_pos:
  assumes "1 \<le> step" "1 \<le> ws" "0 \<le> start"
  shows "\<exists>new. window_loop rs ws step start acc = Some (acc @ new)
      \<and> (new = [] \<longleftrightarrow> int (length rs) \<le> start)
      \<and> (\<forall>k<length new. new ! k = take (nat ws) (drop (nat (start + int k * step)) rs)
                          \<and> start + int k * step < int (length rs))
      \<and> (\<forall>k. Suc k < length new \<longrightarrow> start + int k * step + ws < int (length rs))
      \<and> (step \<le> ws \<longrightarrow> new \<noteq> [] \<longrightarrow>
            int (length rs) \<le> start + int (length new - 1) * step + ws
          \<and> concat (map (take (nat step)) (butlast new)) @ last new = drop (nat start) rs)
      \<and> (new \<noteq> [] \<longrightarrow>
            int (length rs) \<le> start + int (length new - 1) * step + ws
          \<or> int (length rs) \<le> start + int (length new) * step)"
  using assms
proof (induction "nat (int (length rs) - start)" arbitrary: start acc rule: less_induct)
  case less
  let ?n = "int (length rs)"
  let ?b = "take (nat ws) (drop (nat start) rs)"
  show ?case
  proof (cases "start < ?n")
    case False
    then have "window_loop rs ws step start acc = Some (acc @ [])"
      by (subst window_loop.simps) simp
    with False show ?thesis by fastforce
  next
    case lt: True
    have il: "iloc rs start (min (start + ws) ?n) = ?b"
      using iloc_window [OF less.prems(3) lt less.prems(2)] .
    show ?thesis
    proof (cases "?n \<le> start + ws")
      case True
      then have m: "min (start + ws) ?n = ?n" by simp
      have "window_loop rs ws step start acc = Some (acc @ [?b])"
        using lt il m by (subst window_loop.simps) simp
      moreover have "?b = drop (nat start) rs"
        using True less.prems by simp
      ultimately show ?thesis
        using lt True by (intro exI [of _ "[?b]"]) simp
    next
      case False
      then have m: "min (start + ws) ?n = start + ws" and m': "start + ws \<noteq> ?n" by simp_all
      have unf: "window_loop rs ws step start acc
                      = window_loop rs ws step (start + step) (acc @ [?b])"
        using lt il m m' by (subst window_loop.simps) simp
      have "nat (?n - (start + step)) < nat (?n - start)"
        using lt less.prems by simp
      from less.hyps [OF this less.prems(1) less.prems(2), of "acc @ [?b]"] less.prems
      obtain new where n1: "window_loop rs ws step (start + step) (acc @ [?b]) = Some ((acc @ [?b]) @ new)"
        and n2: "new = [] \<longleftrightarrow> ?n \<le> start + step"
        and n3: "\<forall>k<length new. new ! k = take (nat ws) (drop (nat (start + step + int k * step)) rs)
                          \<and> start + step + int k * step < ?n"
        and n4: "\<forall>k. Suc k < length new \<longrightarrow> start + step + int k * step + ws < ?n"
        and n5: "step \<le> ws \<longrightarrow> new \<noteq> [] \<longrightarrow>
            ?n \<le> start + step + int (length new - 1) * step + ws
          \<and> concat (map (take (nat step)) (butlast new)) @ last new = drop (nat (start + step)) rs"
        and n6: "new \<noteq> [] \<longrightarrow>
            ?n \<le> start + step + int (length new - 1) * step + ws
          \<or> ?n \<le> start + step + int (length new) * step"
        by auto
      let ?new = "?b # new"
      have p1: "window_loop rs ws step start acc = Some (acc @ ?new)"
        using unf n1 by simp
      have p3: "\<forall>k<length ?new. ?new ! k = take (nat ws) (drop (nat (start + int k * step)) rs)
                          \<and> start + int k * step < ?n"
      proof (intro allI impI)
        fix k assume "k < length ?new"
        then show "?new ! k = take (nat ws) (drop (nat (start + int k * step)) rs)
                          \<and> start + int k * step < ?n"
        proof (cases k)
          case 0 then show ?thesis using lt by simp
        next
          case (Suc j)
          with \<open>k < length ?new\<close> have "j < length new" by simp
          with n3 Suc show ?thesis by (simp add: algebra_simps)
        qed
      qed
      have p4: "\<forall>k. Suc k < length ?new \<longrightarrow> start + int k * step + ws < ?n"
      proof (intro allI impI)
        fix k assume "Suc k < length ?new"
        then show "start + int k * step + ws < ?n"
        proof (cases k)
          case 0 then show ?thesis using False by simp
        next
          case (Suc j)
          with \<open>Suc k < length ?new\<close> have "Suc j < length new" by simp
          with n4 Suc show ?thesis by (simp add: algebra_simps)
        qed
      qed
      have p5: "step \<le> ws \<longrightarrow>
            ?n \<le> start + int (length ?new - 1) * step + ws
          \<and> concat (map (take (nat step)) (butlast ?new)) @ last ?new = drop (nat start) rs"
      proof
        assume sw: "step \<le> ws"
        then have "start + step < ?n" using False by simp
        then have ne: "new \<noteq> []" using n2 by simp
        then have len: "int (length new - 1) + 1 = int (length new)"
          by (cases new) simp_all
        from n5 sw ne have a: "?n \<le> start + step + int (length new - 1) * step + ws"
          and b: "concat (map (take (nat step)) (butlast new)) @ last new = drop (nat (start + step)) rs"
          by simp_all
        have "start + int (length ?new - 1) * step + ws = start + step + int (length new - 1) * step + ws"
          using len by (simp add: algebra_simps)
        with a have c: "?n \<le> start + int (length ?new - 1) * step + ws" by simp
        have e1: "take (nat step) ?b = take (nat step) (drop (nat start) rs)"
          using sw by (simp add: min_def)
        have e2: "drop (nat (start + step)) rs = drop (nat step) (drop (nat start) rs)"
          using less.prems by (simp add: nat_add_distrib add.commute)
        have "concat (map (take (nat step)) (butlast ?new)) @ last ?new
              = take (nat step) ?b @ (concat (map (take (nat step)) (butlast new)) @ last new)"
          using ne by simp
        also have "\<dots> = take (nat step) (drop (nat start) rs) @ drop (nat step) (drop (nat start) rs)"
          unfolding e1 b e2 ..
        also have "\<dots> = drop (nat start) rs"
          by (rule append_take_drop_id)
        finally have "concat (map (take (nat step)) (butlast ?new)) @ last ?new = drop (nat start) rs" .
        with c show "?n \<le> start + int (length ?new - 1) * step + ws
          \<and> concat (map (take (nat step)) (butlast ?new)) @ last ?new = drop (nat start) rs" by simp
      qed
      have p6: "?n \<le> start + int (length ?new - 1) * step + ws
              \<or> ?n \<le> start + int (length ?new) * step"
      proof (cases "new = []")
        case True
        with n2 have "?n \<le> start + step" by simp
        with True show ?thesis by simp
      next
        case ne: False
        then have len: "int (length new - 1) + 1 = int (length new)"
          by (cases new) simp_all
        have e1: "start + int (length ?new - 1) * step + ws
                  = start + step + int (length new - 1) * step + ws"
          using len by (simp add: algebra_simps)
        have e2: "start + int (length ?new) * step = start + step + int (length new) * step"
          by (simp add: algebra_simps)
        from n6 ne show ?thesis unfolding e1 e2 by blast
      qed
      show ?thesis
        using p1 p3 p4 p5 p6 lt by (intro exI [of _ ?new]) simp
    qed
  qed
qed

subsection \<open>Sorting\<close>

lemma set_insort_by: "set (insort_by le x ys) = insert x (set ys)"
  by (induction ys) auto

lemma mset_insort_by: "mset (insort_by le x ys) = add_mset x (mset ys)"
  by (induction ys) auto

lemma mset_sort_by: "mset (sort_by le xs) = mset xs"
  by (induction xs) (simp_all add: sort_by_def mset_insort_by)

lemma sorted_insort_by:
  assumes tot: "\<And>a b. le a b \<or> le b a"
    and tr: "\<And>a b c. le a b \<Longrightarrow> le b c \<Longrightarrow> le a c"
    and "sorted_wrt le ys"
  shows "sorted_wrt le (insort_by le x ys)"
  using assms(3)
proof (induction ys)
  case Nil
  then show ?case by simp
next
  case (Cons y ys)
  show ?case
  proof (cases "le x y")
    case True
    with Cons.prems tr show ?thesis by auto
  next
    case False
    with tot have "le y x" by blast
    with False Cons show ?thesis by (auto simp: set_insort_by)
  qed
qed

lemma sorted_sort_by:
  assumes "\<And>a b. le a b \<or> le b a" and "\<And>a b c. le a b \<Longrightarrow> le b c \<Longrightarrow> le a c"
  shows "sorted_wrt le (sort_by le xs)"
proof (induction xs)
  case Nil
  show ?case by (simp add: sort_by_def)
next
  case (Cons x xs)
  have "sort_by le (x # xs) = insort_by le x (sort_by le xs)"
    by (simp add: sort_by_def)
  with sorted_insort_by [of le "sort_by le xs" x] assms Cons show ?case
    by simp
qed

lemma cell_le_total: "cell_le a b \<or> cell_le b a"
  by (cases a; cases b) auto

lemma cell_le_trans: "cell_le a b \<Longrightarrow> cell_le b c \<Longrightarrow> cell_le a c"
  by (cases a; cases b; cases c) auto

lemma key_le_total: "key_le c asc r s \<or> key_le c asc s r"
  using cell_le_total [of "at_col c r" "at_col c s"] by (auto simp: key_le_def)

lemma key_le_trans: "key_le c asc r s \<Longrightarrow> key_le c asc s t \<Longrightarrow> key_le c asc r t"
proof (cases asc)
  case True
  then show "key_le c asc r s \<Longrightarrow> key_le c asc s t \<Longrightarrow> key_le c asc r t"
    using cell_le_trans [of "at_col c r" "at_col c s" "at_col c t"] by (simp add: key_le_def)
next
  case False
  then show "key_le c asc r s \<Longrightarrow> key_le c asc s t \<Longrightarrow> key_le c asc r t"
    using cell_le_trans [of "at_col c t" "at_col c s" "at_col c r"] by (simp add: key_le_def)
qed

lemma set_sort_by: "set (sort_by le xs) = set xs"
  by (induction xs) (simp_all add: sort_by_def set_insort_by)

lemma sorted_wrt_all: "(\<And>x y. x \<in> set xs \<Longrightarrow> y \<in> set xs \<Longrightarrow> P x y) \<Longrightarrow> sorted_wrt P xs"
  by (induction xs) auto

lemma sort_values_Inr:
  assumes "sort_values df c asc = Inr sdf"
  shows "mset (records sdf) = mset (records df)" and "ordered_by c asc (records sdf)"
    and "columns sdf = columns df"
proof -
  let ?S = "sort_by (key_le c asc) (filter (\<lambda>r. \<not> isna (at_col c r)) (records df))"
  let ?M = "filter (\<lambda>r. isna (at_col c r)) (records df)"
  from assms have sdf: "sdf = df\<lparr>records := ?S @ ?M\<rparr>"
    by (auto simp: sort_values_def split: if_splits)
  then show "columns sdf = columns df" by simp
  have "mset (?S @ ?M) = mset (records df)"
    by (simp add: mset_sort_by)
  with sdf show "mset (records sdf) = mset (records df)" by simp
  let ?P = "\<lambda>r s. isna (at_col c s) \<or> (\<not> isna (at_col c r) \<and> key_le c asc r s)"
  have setS: "set ?S = {r \<in> set (records df). \<not> isna (at_col c r)}"
    by (simp add: set_sort_by)
  have "sorted_wrt (key_le c asc) ?S"
    by (rule sorted_sort_by) (rule key_le_total, erule key_le_trans, assumption)
  then have s1: "sorted_wrt ?P ?S"
  proof (rule sorted_wrt_mono_rel [rotated])
    fix x y assume "x \<in> set ?S" "y \<in> set ?S" "key_le c asc x y"
    with setS show "?P x y" by simp
  qed
  have s2: "sorted_wrt ?P ?M"
    by (rule sorted_wrt_all) simp
  have "sorted_wrt ?P (?S @ ?M)"
    using s1 s2 by (simp add: sorted_wrt_append)
  with sdf show "ordered_by c asc (records sdf)"
    by (simp add: ordered_by_def)
qed

lemma window_loop_first_reaches_end:
  assumes "rs \<noteq> []" and "int (length rs) \<le> ws"
  shows "window_loop rs ws step 0 [] = Some [rs]"
proof -
  have "0 < int (length rs)" using assms by simp
  moreover have "min ws (int (length rs)) = int (length rs)" using assms by simp
  moreover have "iloc rs 0 (int (length rs)) = rs"
    by (simp add: iloc_def clip_index_def)
  ultimately show ?thesis
    by (subst window_loop.simps) simp
qed

text \<open>
  Claim C1, as the code has it. \<^verbatim>\<open>sliding_window_batches\<close> does not look at the sign
  of \<^verbatim>\<open>step\<close>: where the ordering column can be sorted, a step below one never makes
  it raise. It returns no batch for an empty dataset, and when the first window already
  reaches the end of the dataset it returns that one batch, the whole sorted dataset.
\<close>

theorem sliding_window_batches_step_unchecked:
  assumes "sort_values df time_col asc = Inr sdf" and "step < 1"
  shows "(\<forall>e. sliding_window_batches df time_col window_size step asc \<noteq> Some (Inl e))
     \<and> (records sdf = [] \<longrightarrow>
            sliding_window_batches df time_col window_size step asc = Some (Inr []))
     \<and> (records sdf \<noteq> [] \<longrightarrow> int (length (records sdf)) \<le> window_size \<longrightarrow>
            sliding_window_batches df time_col window_size step asc = Some (Inr [sdf]))"
proof (intro conjI allI impI)
  fix e show "sliding_window_batches df time_col window_size step asc \<noteq> Some (Inl e)"
    using assms(1) by (auto simp: sliding_window_batches_def)
next
  assume "records sdf = []"
  then have "window_loop (records sdf) window_size step 0 [] = Some []"
    by (subst window_loop.simps) simp
  with assms(1) show "sliding_window_batches df time_col window_size step asc = Some (Inr [])"
    by (simp add: sliding_window_batches_def)
next
  assume "records sdf \<noteq> []" "int (length (records sdf)) \<le> window_size"
  then have "window_loop (records sdf) window_size step 0 [] = Some [records sdf]"
    by (rule window_loop_first_reaches_end)
  with assms(1) show "sliding_window_batches df time_col window_size step asc = Some (Inr [sdf])"
    by (simp add: sliding_window_batches_def)
qed


lemma sort_example: "sort_values example_frame ''t'' True =
   Inr \<lparr>columns = [''t''],
      records = [[''t'' \<mapsto> CNum 1], [''t'' \<mapsto> CNum 2], [''t'' \<mapsto> CNum 3]]\<rparr>"
  by (simp add: sort_values_def example_frame_def mixed_def at_col_def sort_by_def key_le_def)

text \<open>
  Claim C1 as stated fails: with step 0 and a window of 5 over three records the call
  returns one batch and raises nothing.
\<close>

theorem sliding_window_batches_step_zero_counterexample:
  "sliding_window_batches example_frame ''t'' 5 0 True =
     Some (Inr [\<lparr>columns = [''t''],
      records = [[''t'' \<mapsto> CNum 1], [''t'' \<mapsto> CNum 2], [''t'' \<mapsto> CNum 3]]\<rparr>])"
  by (simp add: sliding_window_batches_def sort_example window_loop.simps iloc_def clip_index_def)

text \<open>
  Claim C8 as stated fails: with window size 1 and step 2 the record with key 2 is in no
  batch, and the last batch is reached without any window sliding over it.
\<close>

theorem sliding_window_batches_gap_counterexample:
  "sliding_window_batches example_frame ''t'' 1 2 True =
     Some (Inr [\<lparr>columns = [''t''], records = [[''t'' \<mapsto> CNum 1]]\<rparr>,
                \<lparr>columns = [''t''], records = [[''t'' \<mapsto> CNum 3]]\<rparr>])"
  by (simp add: sliding_window_batches_def sort_example window_loop.simps iloc_def clip_index_def)

text \<open>A window size of zero gives one empty batch for every start position.\<close>

lemma sliding_window_batches_empty_window:
  "sliding_window_batches example_frame ''t'' 0 1 True =
     Some (Inr [\<lparr>columns = [''t''], records = []\<rparr>,
                \<lparr>columns = [''t''], records = []\<rparr>,
                \<lparr>columns = [''t''], records = []\<rparr>])"
  by (simp add: sliding_window_batches_def sort_example window_loop.simps iloc_def clip_index_def)

text \<open>
  With a step below one and a window shorter than a non-empty dataset the loop never
  returns: the start never passes the end and no window reaches it.
\<close>

lemma window_loop_diverges:
  assumes "window_loop rs ws step start acc = Some y"
  shows "\<not> (step \<le> 0 \<and> start \<le> 0 \<and> ws < int (length rs) \<and> 0 < length rs)"
proof (rule window_loop.raw_induct [where P = "\<lambda>rs ws step start acc y.
         \<not> (step \<le> 0 \<and> start \<le> 0 \<and> ws < int (length rs) \<and> 0 < length rs)", OF _ assms])
  fix f :: "'a list \<Rightarrow> int \<Rightarrow> int \<Rightarrow> int \<Rightarrow> 'a list list \<Rightarrow> 'a list list option"
  fix rs :: "'a list" and ws step start :: int and acc y :: "'a list list"
  assume IH: "\<And>rs ws step start acc y. f rs ws step start acc = Some y \<Longrightarrow>
         \<not> (step \<le> 0 \<and> start \<le> 0 \<and> ws < int (length rs) \<and> 0 < length rs)"
    and body: "(if start < int (length rs) then
        (if min (start + ws) (int (length rs)) = int (length rs)
         then Some (acc @ [iloc rs start (min (start + ws) (int (length rs)))])
         else f rs ws step (start + step)
                (acc @ [iloc rs start (min (start + ws) (int (length rs)))]))
      else Some acc) = Some y"
  show "\<not> (step \<le> 0 \<and> start \<le> 0 \<and> ws < int (length rs) \<and> 0 < length rs)"
  proof
    assume h: "step \<le> 0 \<and> start \<le> 0 \<and> ws < int (length rs) \<and> 0 < length rs"
    then have "0 < int (length rs)" by linarith
    with h have lt: "start < int (length rs)"
      and m: "min (start + ws) (int (length rs)) = start + ws"
      and m': "start + ws \<noteq> int (length rs)" by linarith+
    have call: "f rs ws step (start + step)
                  (acc @ [iloc rs start (min (start + ws) (int (length rs)))]) = Some y"
      using body lt m m' by simp
    from h have "step \<le> 0 \<and> start + step \<le> 0 \<and> ws < int (length rs) \<and> 0 < length rs"
      by linarith
    with IH [OF call] show False by blast
  qed
qed

lemma window_loop_None:
  assumes "step \<le> 0" and "ws < int (length rs)" and "0 < length rs"
  shows "window_loop rs ws step 0 [] = None"
proof (cases "window_loop rs ws step 0 []")
  case None
  then show ?thesis .
next
  case (Some y)
  from window_loop_diverges [OF Some] assms show ?thesis by simp
qed

text \<open>
  With a step below one and a window shorter than a non-empty dataset the call does not
  return.
\<close>

lemma sliding_window_batches_diverges:
  assumes "sort_values df time_col asc = Inr sdf" and "step < 1"
    and "records sdf \<noteq> []" and "window_size < int (length (records sdf))"
  shows "sliding_window_batches df time_col window_size step asc = None"
proof -
  have "window_loop (records sdf) window_size step 0 [] = None"
    using assms(2-4) by (intro window_loop_None) simp_all
  with assms(1) show ?thesis
    by (simp add: sliding_window_batches_def)
qed

text \<open>The hypotheses of C1's theorem hold for three records, step 0 and window size 3.\<close>

theorem sliding_window_batches_step_unchecked_witness:
  "sort_values example_frame ''t'' True = Inr example_sorted \<and> (0::int) < 1
   \<and> sliding_window_batches example_frame ''t'' 3 0 True = Some (Inr [example_sorted])"
proof -
  have s: "sort_values example_frame ''t'' True = Inr example_sorted"
    by (simp add: sort_example example_sorted_def)
  have "records example_sorted \<noteq> []" "int (length (records example_sorted)) \<le> 3"
    by (simp_all add: example_sorted_def)
  with sliding_window_batches_step_unchecked [OF s, of 0 3] s show ?thesis
    by simp
qed

text \<open>
  Claim C8, as the code has it. For an ordering column that can be sorted, a window size of
  at least one and a step of at least one, \<^verbatim>\<open>sliding_window_batches\<close> returns. The
  records are a permutation of the dataset's, ordered by the column in the direction of the
  flag with the missing values last. Batch \<open>k\<close> holds the \<^verbatim>\<open>window_size\<close> consecutive
  records that start at position \<open>k * step\<close> (fewer where the dataset ends), no batch is
  empty, none is longer than \<^verbatim>\<open>window_size\<close>, and all but the last have exactly that
  length. Iteration stops once a batch reaches the end of the dataset: no batch but the last
  reaches it, and after the last batch either that batch has reached the end or the next
  window would start behind it. When moreover \<open>step \<le> window_size\<close>, the last batch
  runs to the end of the dataset, the first \<open>step\<close> records of every batch but the last
  followed by the last batch are the sorted dataset, and so every record is in some batch.
\<close>

theorem sliding_window_batches_windows:
  assumes srt: "sort_values df time_col asc = Inr sdf" and st: "1 \<le> step"
    and ws: "1 \<le> window_size"
  shows "\<exists>bs. sliding_window_batches df time_col window_size step asc = Some (Inr bs)
     \<and> mset (records sdf) = mset (records df) \<and> ordered_by time_col asc (records sdf)
     \<and> (bs = [] \<longleftrightarrow> records sdf = [])
     \<and> (\<forall>k<length bs.
           bs ! k = sdf\<lparr>records := take (nat window_size) (drop (nat (int k * step)) (records sdf))\<rparr>
         \<and> int k * step < int (length (records sdf))
         \<and> records (bs ! k) \<noteq> [] \<and> length (records (bs ! k)) \<le> nat window_size)
     \<and> (\<forall>k. Suc k < length bs \<longrightarrow>
           length (records (bs ! k)) = nat window_size
         \<and> int k * step + window_size < int (length (records sdf)))
     \<and> (bs \<noteq> [] \<longrightarrow>
           int (length (records sdf)) \<le> int (length bs - 1) * step + window_size
         \<or> int (length (records sdf)) \<le> int (length bs) * step)
     \<and> (step \<le> window_size \<longrightarrow> bs \<noteq> [] \<longrightarrow>
           int (length (records sdf)) \<le> int (length bs - 1) * step + window_size
         \<and> records (last bs) = drop (nat (int (length bs - 1) * step)) (records sdf)
         \<and> concat (map (take (nat step)) (map records (butlast bs))) @ records (last bs)
             = records sdf
         \<and> set (records sdf) = (\<Union>b\<in>set bs. set (records b)))"
proof -
  let ?rs = "records sdf"
  let ?n = "int (length ?rs)"
  from window_loop_step_pos [OF st ws, of 0 ?rs "[]"]
  obtain new where n1: "window_loop ?rs window_size step 0 [] = Some new"
    and n2: "new = [] \<longleftrightarrow> ?n \<le> 0"
    and n3: "\<forall>k<length new. new ! k = take (nat window_size) (drop (nat (int k * step)) ?rs)
                          \<and> int k * step < ?n"
    and n4: "\<forall>k. Suc k < length new \<longrightarrow> int k * step + window_size < ?n"
    and n5: "step \<le> window_size \<longrightarrow> new \<noteq> [] \<longrightarrow>
            ?n \<le> int (length new - 1) * step + window_size
          \<and> concat (map (take (nat step)) (butlast new)) @ last new = ?rs"
    and n6: "new \<noteq> [] \<longrightarrow>
            ?n \<le> int (length new - 1) * step + window_size
          \<or> ?n \<le> int (length new) * step"
    by auto
  define bs where "bs = map (\<lambda>b. sdf\<lparr>records := b\<rparr>) new"
  have len: "length bs = length new" by (simp add: bs_def)
  have rec: "map records bs = new" by (simp add: bs_def comp_def)
  have nth: "\<And>k. k < length new \<Longrightarrow> records (bs ! k) = new ! k" by (simp add: bs_def)
  have nth': "\<And>k. k < length new \<Longrightarrow> bs ! k = sdf\<lparr>records := new ! k\<rparr>"
    by (simp add: bs_def)
  have res: "sliding_window_batches df time_col window_size step asc = Some (Inr bs)"
    by (simp add: sliding_window_batches_def srt n1 bs_def)
  have p0: "mset ?rs = mset (records df)" "ordered_by time_col asc ?rs"
    using sort_values_Inr [OF srt] by simp_all
  have p1: "bs = [] \<longleftrightarrow> ?rs = []"
    using n2 len by (metis length_0_conv of_nat_le_0_iff)
  have p2: "\<forall>k<length bs.
           bs ! k = sdf\<lparr>records := take (nat window_size) (drop (nat (int k * step)) ?rs)\<rparr>
         \<and> int k * step < ?n
         \<and> records (bs ! k) \<noteq> [] \<and> length (records (bs ! k)) \<le> nat window_size"
  proof (intro allI impI)
    fix k assume k: "k < length bs"
    with n3 len have a: "new ! k = take (nat window_size) (drop (nat (int k * step)) ?rs)"
      and b: "int k * step < ?n" by simp_all
    define s where "s = int k * step"
    have "0 \<le> s" using st by (simp add: s_def)
    with b have "nat s < length ?rs" unfolding s_def [symmetric] by linarith
    with a ws have "new ! k \<noteq> []" by (simp add: s_def)
    moreover from a have "length (new ! k) \<le> nat window_size" by simp
    ultimately show
      "bs ! k = sdf\<lparr>records := take (nat window_size) (drop (nat (int k * step)) ?rs)\<rparr>
         \<and> int k * step < ?n
         \<and> records (bs ! k) \<noteq> [] \<and> length (records (bs ! k)) \<le> nat window_size"
      using a b k len nth nth' by simp
  qed
  have p3: "\<forall>k. Suc k < length bs \<longrightarrow>
           length (records (bs ! k)) = nat window_size \<and> int k * step + window_size < ?n"
  proof (intro allI impI)
    fix k assume k: "Suc k < length bs"
    with n4 len have b: "int k * step + window_size < ?n" by simp
    from k len n3 have a: "new ! k = take (nat window_size) (drop (nat (int k * step)) ?rs)"
      by simp
    define s where "s = int k * step"
    have "0 \<le> s" using st by (simp add: s_def)
    with b ws have "nat window_size \<le> length ?rs - nat s" unfolding s_def [symmetric] by linarith
    with a have "length (new ! k) = nat window_size" by (simp add: s_def)
    with k len nth b
    show "length (records (bs ! k)) = nat window_size \<and> int k * step + window_size < ?n"
      by simp
  qed
  have p5: "bs \<noteq> [] \<longrightarrow>
           ?n \<le> int (length bs - 1) * step + window_size \<or> ?n \<le> int (length bs) * step"
  proof
    assume "bs \<noteq> []"
    then have "new \<noteq> []" using len by auto
    with n6 show "?n \<le> int (length bs - 1) * step + window_size \<or> ?n \<le> int (length bs) * step"
      unfolding len by blast
  qed
  have p4: "step \<le> window_size \<longrightarrow> bs \<noteq> [] \<longrightarrow>
           ?n \<le> int (length bs - 1) * step + window_size
         \<and> records (last bs) = drop (nat (int (length bs - 1) * step)) ?rs
         \<and> concat (map (take (nat step)) (map records (butlast bs))) @ records (last bs) = ?rs
         \<and> set ?rs = (\<Union>b\<in>set bs. set (records b))"
  proof (intro impI)
    assume sw: "step \<le> window_size" and ne: "bs \<noteq> []"
    then have nne: "new \<noteq> []" using len by auto
    from n5 sw nne have e: "?n \<le> int (length new - 1) * step + window_size"
      and c: "concat (map (take (nat step)) (butlast new)) @ last new = ?rs" by simp_all
    have lastnew: "last new = new ! (length new - 1)"
      using nne by (simp add: last_conv_nth)
    have "length new - 1 < length new" using nne by simp
    with n3 have a: "new ! (length new - 1)
        = take (nat window_size) (drop (nat (int (length new - 1) * step)) ?rs)" by blast
    define s where "s = int (length new - 1) * step"
    have "0 \<le> s" using st by (simp add: s_def)
    with e ws have "length ?rs - nat s \<le> nat window_size"
      unfolding s_def [symmetric] by linarith
    with a have a': "new ! (length new - 1) = drop (nat (int (length new - 1) * step)) ?rs"
      by (simp add: s_def)
    have lastbs: "records (last bs) = last new"
      using nne by (simp add: bs_def last_map)
    have q1: "records (last bs) = drop (nat (int (length bs - 1) * step)) ?rs"
      using lastbs lastnew a' len by simp
    have "map records (butlast bs) = butlast new"
      by (simp add: map_butlast rec)
    with c lastbs have q2:
      "concat (map (take (nat step)) (map records (butlast bs))) @ records (last bs) = ?rs"
      by simp
    have sub: "\<And>b. b \<in> set new \<Longrightarrow> set b \<subseteq> set ?rs"
    proof -
      fix b assume "b \<in> set new"
      then obtain k where "k < length new" "b = new ! k" by (auto simp: in_set_conv_nth)
      with n3 have "b = take (nat window_size) (drop (nat (int k * step)) ?rs)" by simp
      then show "set b \<subseteq> set ?rs"
        by (auto dest: in_set_takeD in_set_dropD)
    qed
    have "set (concat (map (take (nat step)) (butlast new))) \<subseteq> (\<Union>b\<in>set new. set b)"
      by (auto dest: in_set_takeD in_set_butlastD)
    moreover have "set (last new) \<subseteq> (\<Union>b\<in>set new. set b)"
      using last_in_set [OF nne] by blast
    ultimately have "set ?rs \<subseteq> (\<Union>b\<in>set new. set b)"
      using c by (metis le_sup_iff set_append)
    with sub have "set ?rs = (\<Union>b\<in>set new. set b)" by blast
    moreover have "(\<Union>b\<in>set bs. set (records b)) = (\<Union>b\<in>set new. set b)"
      by (simp add: bs_def)
    ultimately have q3: "set ?rs = (\<Union>b\<in>set bs. set (records b))" by simp
    from e have q0: "?n \<le> int (length bs - 1) * step + window_size"
      unfolding len .
    from q0 q1 q2 q3 show "?n \<le> int (length bs - 1) * step + window_size
         \<and> records (last bs) = drop (nat (int (length bs - 1) * step)) ?rs
         \<and> concat (map (take (nat step)) (map records (butlast bs))) @ records (last bs) = ?rs
         \<and> set ?rs = (\<Union>b\<in>set bs. set (records b))" by simp
  qed
  from res p0 p1 p2 p3 p5 p4 show ?thesis by blast
qed

text \<open>
  These conditions leave no choice for the number of batches: two numbers that both start
  every window inside the dataset, let no window but the last reach the end, and stop for
  one of the loop's two reasons are equal.
\<close>

lemma window_count_below:
  fixes n ws step :: int
  assumes "a = 0 \<longleftrightarrow> n = 0"
    and "a \<noteq> 0 \<longrightarrow> n \<le> int (a - 1) * step + ws \<or> n \<le> int a * step"
    and "\<forall>k<b. int k * step < n"
    and "\<forall>k. Suc k < b \<longrightarrow> int k * step + ws < n"
  shows "\<not> a < b"
proof
  assume ab: "a < b"
  show False
  proof (cases "a = 0")
    case True
    with assms(1) have "n = 0" by simp
    moreover from ab assms(3) True have "int 0 * step < n" by blast
    ultimately show False by simp
  next
    case False
    then have "Suc (a - 1) < b" using ab by simp
    with assms(4) have x: "int (a - 1) * step + ws < n" by blast
    from ab assms(3) have y: "int a * step < n" by blast
    from assms(2) False x y show False by linarith
  qed
qed

lemma window_count_determined:
  fixes n ws step :: int
  assumes "a = 0 \<longleftrightarrow> n = 0"
    and "a \<noteq> 0 \<longrightarrow> n \<le> int (a - 1) * step + ws \<or> n \<le> int a * step"
    and "\<forall>k<a. int k * step < n"
    and "\<forall>k. Suc k < a \<longrightarrow> int k * step + ws < n"
    and "b = 0 \<longleftrightarrow> n = 0"
    and "b \<noteq> 0 \<longrightarrow> n \<le> int (b - 1) * step + ws \<or> n \<le> int b * step"
    and "\<forall>k<b. int k * step < n"
    and "\<forall>k. Suc k < b \<longrightarrow> int k * step + ws < n"
  shows "a = b"
  using window_count_below [OF assms(1,2,7,8)] window_count_below [OF assms(5,6,3,4)]
  by simp

lemma example_frame_windows:
  "sliding_window_batches example_frame ''t'' 2 1 True =
     Some (Inr [\<lparr>columns = [''t''], records = [[''t'' \<mapsto> CNum 1], [''t'' \<mapsto> CNum 2]]\<rparr>,
                \<lparr>columns = [''t''], records = [[''t'' \<mapsto> CNum 2], [''t'' \<mapsto> CNum 3]]\<rparr>])"
  by (simp add: sliding_window_batches_def sort_example window_loop.simps iloc_def clip_index_def)

text \<open>
  The hypotheses of C8's theorem hold for three records, step 1 and window size 2: the
  result is the two batches of positions 0 to 1 and 1 to 2, and no third one.
\<close>

theorem sliding_window_batches_windows_witness:
  "sort_values example_frame ''t'' True = Inr example_sorted \<and> (1::int) \<le> 1 \<and> (1::int) \<le> 2
   \<and> sliding_window_batches example_frame ''t'' 2 1 True =
       Some (Inr [\<lparr>columns = [''t''], records = [[''t'' \<mapsto> CNum 1], [''t'' \<mapsto> CNum 2]]\<rparr>,
                  \<lparr>columns = [''t''], records = [[''t'' \<mapsto> CNum 2], [''t'' \<mapsto> CNum 3]]\<rparr>])
   \<and> (\<exists>bs. sliding_window_batches example_frame ''t'' 2 1 True = Some (Inr bs)
         \<and> bs \<noteq> []
         \<and> concat (map (take (nat 1)) (map records (butlast bs))) @ records (last bs)
             = records example_sorted)"
proof -
  have s: "sort_values example_frame ''t'' True = Inr example_sorted"
    by (simp add: sort_example example_sorted_def)
  have ne: "records example_sorted \<noteq> []"
    by (simp add: example_sorted_def)
  from sliding_window_batches_windows [OF s, of 1 2] ne
  have ex: "\<exists>bs. sliding_window_batches example_frame ''t'' 2 1 True = Some (Inr bs)
         \<and> bs \<noteq> []
         \<and> concat (map (take (nat 1)) (map records (butlast bs))) @ records (last bs)
             = records example_sorted"
    by auto
  show ?thesis
    by (intro conjI s example_frame_windows ex) simp_all
qed

section \<open>Properties of the by-key partitioner\<close>

lemma distinct_sort_by: "distinct (sort_by le xs) = distinct xs"
  using mset_sort_by [of le xs] by (rule mset_eq_imp_distinct_iff)

lemma set_group_keys: "set (group_keys vs) = {v \<in> set vs. \<not> isna v}"
  by (simp add: group_keys_def set_sort_by)

lemma distinct_group_keys: "distinct (group_keys vs)"
  by (simp add: group_keys_def distinct_sort_by)

lemma sorted_group_keys: "sorted_wrt cell_le (group_keys vs)"
  unfolding group_keys_def
  by (rule sorted_sort_by) (rule cell_le_total, erule cell_le_trans, assumption)

text \<open>
  The specification's example: five records with keys A, A, B, B, B give two batches, of
  two and of three records, A before B.
\<close>

lemma five_frame_batches:
  "define_batches_by_column five_frame ''k'' =
     Inr [\<lparr>columns = [''k'', ''x''],
           records = [[''k'' \<mapsto> CStr ''A'', ''x'' \<mapsto> CNum 1], [''k'' \<mapsto> CStr ''A'', ''x'' \<mapsto> CNum 2]]\<rparr>,
          \<lparr>columns = [''k'', ''x''],
           records = [[''k'' \<mapsto> CStr ''B'', ''x'' \<mapsto> CNum 3], [''k'' \<mapsto> CStr ''B'', ''x'' \<mapsto> CNum 4],
                      [''k'' \<mapsto> CStr ''B'', ''x'' \<mapsto> CNum 5]]\<rparr>]"
  by (simp add: define_batches_by_column_def five_frame_def groupby_def group_keys_def
        sort_by_def at_col_def)

text \<open>
  Claim C4, as the code has it. For a key column of the frame,
  \<^verbatim>\<open>define_batches_by_column\<close> returns one batch for each distinct value of the column
  that is not missing: there is a list of keys, as long as the list of batches, without
  repetition, holding exactly the values of the column that are not missing, and in
  ascending order (the order of pandas' \<^verbatim>\<open>groupby\<close>, not the order of first
  occurrence); batch \<open>i\<close> holds exactly the records whose key is the \<open>i\<close>-th key, in
  their original order, and is not empty. In particular, five records with keys A, A, B, B, B
  give two batches, of two and of three records, A before B.
\<close>

theorem define_batches_by_column_sorted_keys:
  assumes "batch_col \<in> set (columns df)"
  shows "(\<exists>bs ks. define_batches_by_column df batch_col = Inr bs
     \<and> length bs = length ks \<and> distinct ks
     \<and> set ks = {v \<in> set (map (at_col batch_col) (records df)). \<not> isna v}
     \<and> sorted_wrt cell_le ks
     \<and> (\<forall>i<length bs.
           records (bs ! i) = filter (\<lambda>r. at_col batch_col r = ks ! i) (records df)
         \<and> records (bs ! i) \<noteq> [] \<and> columns (bs ! i) = columns df))
   \<and> define_batches_by_column five_frame ''k'' =
       Inr [\<lparr>columns = [''k'', ''x''],
             records = [[''k'' \<mapsto> CStr ''A'', ''x'' \<mapsto> CNum 1], [''k'' \<mapsto> CStr ''A'', ''x'' \<mapsto> CNum 2]]\<rparr>,
            \<lparr>columns = [''k'', ''x''],
             records = [[''k'' \<mapsto> CStr ''B'', ''x'' \<mapsto> CNum 3], [''k'' \<mapsto> CStr ''B'', ''x'' \<mapsto> CNum 4],
                        [''k'' \<mapsto> CStr ''B'', ''x'' \<mapsto> CNum 5]]\<rparr>]"
proof -
  let ?ks = "group_keys (map (at_col batch_col) (records df))"
  let ?bs = "map snd (groupby df batch_col)"
  have r: "define_batches_by_column df batch_col = Inr ?bs"
    using assms by (simp add: define_batches_by_column_def)
  have l: "length ?bs = length ?ks"
    by (simp add: groupby_def)
  have b: "\<forall>i<length ?bs.
           records (?bs ! i) = filter (\<lambda>r. at_col batch_col r = ?ks ! i) (records df)
         \<and> records (?bs ! i) \<noteq> [] \<and> columns (?bs ! i) = columns df"
  proof (intro allI impI)
    fix i assume i: "i < length ?bs"
    then have i': "i < length ?ks" using l by simp
    then have "?ks ! i \<in> set ?ks" by simp
    then have "?ks ! i \<in> set (map (at_col batch_col) (records df))"
      by (simp add: set_group_keys)
    then obtain r where "r \<in> set (records df)" "at_col batch_col r = ?ks ! i" by auto
    then have ne: "filter (\<lambda>r. at_col batch_col r = ?ks ! i) (records df) \<noteq> []"
      by (auto simp: filter_empty_conv)
    have "?bs ! i = df\<lparr>records := filter (\<lambda>r. at_col batch_col r = ?ks ! i) (records df)\<rparr>"
      using i' by (simp add: groupby_def)
    with ne show "records (?bs ! i) = filter (\<lambda>r. at_col batch_col r = ?ks ! i) (records df)
         \<and> records (?bs ! i) \<noteq> [] \<and> columns (?bs ! i) = columns df" by simp
  qed
  from r l b distinct_group_keys [of "map (at_col batch_col) (records df)"]
    set_group_keys [of "map (at_col batch_col) (records df)"]
    sorted_group_keys [of "map (at_col batch_col) (records df)"]
  have "\<exists>bs ks. define_batches_by_column df batch_col = Inr bs
     \<and> length bs = length ks \<and> distinct ks
     \<and> set ks = {v \<in> set (map (at_col batch_col) (records df)). \<not> isna v}
     \<and> sorted_wrt cell_le ks
     \<and> (\<forall>i<length bs.
           records (bs ! i) = filter (\<lambda>r. at_col batch_col r = ks ! i) (records df)
         \<and> records (bs ! i) \<noteq> [] \<and> columns (bs ! i) = columns df)"
    by blast
  then show ?thesis
    using five_frame_batches by (rule conjI)
qed

text \<open>The hypothesis of C4's theorem holds for the specification's example.\<close>

theorem define_batches_by_column_sorted_keys_witness:
  "''k'' \<in> set (columns five_frame)
   \<and> (\<exists>bs. define_batches_by_column five_frame ''k'' = Inr bs
         \<and> map (\<lambda>b. length (records b)) bs = [2, 3]
         \<and> map (\<lambda>b. map (at_col ''k'') (records b)) bs
             = [[CStr ''A'', CStr ''A''], [CStr ''B'', CStr ''B'', CStr ''B'']])"
proof -
  have c: "''k'' \<in> set (columns five_frame)" by (simp add: five_frame_def)
  from define_batches_by_column_sorted_keys [OF c, THEN conjunct1]
  obtain bs where "define_batches_by_column five_frame ''k'' = Inr bs" by blast
  with five_frame_batches c show ?thesis
    by (simp add: at_col_def)
qed

text \<open>
  Claim C4 as stated fails: for the keys B, A the batch of A comes first, while the order of
  first occurrence is B, A.
\<close>

theorem define_batches_by_column_order_counterexample:
  "define_batches_by_column keys_frame ''k'' =
     Inr [\<lparr>columns = [''k''], records = [[''k'' \<mapsto> CStr ''A'']]\<rparr>,
          \<lparr>columns = [''k''], records = [[''k'' \<mapsto> CStr ''B'']]\<rparr>]
   \<and> first_occurrence_keys (map (at_col ''k'') (records keys_frame)) = [CStr ''B'', CStr ''A'']"
  by (simp add: define_batches_by_column_def keys_frame_def groupby_def group_keys_def
        sort_by_def at_col_def first_occurrence_keys_def)

section \<open>Properties of the contingency builder\<close>

lemma count_partition:
  "distinct ks \<Longrightarrow> f ` set xs \<subseteq> set ks \<Longrightarrow>
     sum_list (map (\<lambda>k. length (filter (\<lambda>x. f x = k) xs)) ks) = length xs"
proof (induction ks arbitrary: xs)
  case Nil
  then show ?case by simp
next
  case (Cons k ks)
  let ?ys = "filter (\<lambda>x. f x \<noteq> k) xs"
  have sub: "f ` set ?ys \<subseteq> set ks" using Cons.prems(2) by auto
  have dist: "distinct ks" and nk: "k \<notin> set ks" using Cons.prems(1) by simp_all
  have "map (\<lambda>k'. length (filter (\<lambda>x. f x = k') xs)) ks
        = map (\<lambda>k'. length (filter (\<lambda>x. f x = k') ?ys)) ks"
  proof (rule map_cong [OF refl])
    fix k' assume "k' \<in> set ks"
    with nk have "k' \<noteq> k" by auto
    then have "filter (\<lambda>x. f x = k') ?ys = filter (\<lambda>x. f x = k') xs"
      by (auto intro: filter_cong)
    then show "length (filter (\<lambda>x. f x = k') xs) = length (filter (\<lambda>x. f x = k') ?ys)"
      by simp
  qed
  then have "sum_list (map (\<lambda>k'. length (filter (\<lambda>x. f x = k') xs)) ks)
             = sum_list (map (\<lambda>k'. length (filter (\<lambda>x. f x = k') ?ys)) ks)"
    by (simp only:)
  also have "\<dots> = length ?ys"
    by (rule Cons.IH [OF dist sub])
  finally have rest: "sum_list (map (\<lambda>k'. length (filter (\<lambda>x. f x = k') xs)) ks) = length ?ys" .
  have "length (filter (\<lambda>x. f x = k) xs) + length ?ys = length xs"
    by (rule sum_length_filter_compl)
  with rest show ?case by (simp del: filter_filter)
qed

lemma crosstab_total:
  "total (counts (crosstab a b))
     = length (filter (\<lambda>p. \<not> isna (fst p) \<and> \<not> isna (snd p)) (zip a b))"
proof -
  let ?pairs = "filter (\<lambda>p. \<not> isna (fst p) \<and> \<not> isna (snd p)) (zip a b)"
  let ?idx = "group_keys (map fst ?pairs)"
  let ?cols = "group_keys (map snd ?pairs)"
  have inner: "sum_list (map (\<lambda>j. length (filter (\<lambda>p. p = (i, j)) ?pairs)) ?cols)
               = length (filter (\<lambda>p. fst p = i) ?pairs)" for i
  proof -
    let ?xs = "filter (\<lambda>p. fst p = i) ?pairs"
    have "snd ` set ?xs \<subseteq> set ?cols"
      by (auto simp: set_group_keys)
    from count_partition [OF distinct_group_keys this]
    have "sum_list (map (\<lambda>j. length (filter (\<lambda>p. snd p = j) ?xs)) ?cols) = length ?xs" .
    moreover have "filter (\<lambda>p. snd p = j) ?xs = filter (\<lambda>p. p = (i, j)) ?pairs" for j
      by (auto intro: filter_cong simp: prod_eq_iff)
    ultimately show ?thesis by simp
  qed
  have "fst ` set ?pairs \<subseteq> set ?idx"
    by (auto simp: set_group_keys)
  from count_partition [OF distinct_group_keys this]
  have "sum_list (map (\<lambda>i. length (filter (\<lambda>p. fst p = i) ?pairs)) ?idx) = length ?pairs" .
  with inner show ?thesis
    by (simp add: crosstab_def total_def Let_def comp_def)
qed

lemma zip_columns:
  "zip (map f xs) (map g xs) = map (\<lambda>x. (f x, g x)) xs"
  by (induction xs) simp_all

text \<open>
  Claim C3, as the code has it. For two columns of the frame the cells of the contingency
  table add up to the number of records that have a value in both columns: \<^verbatim>\<open>pd.crosstab\<close>
  drops a record that is missing in either. So the cells add up to the number of records
  of the batch when no record is missing in the two columns.
\<close>

theorem build_contingency_table_total:
  assumes "row \<in> set (columns df)" and "col \<in> set (columns df)"
  shows "\<exists>t. build_contingency_table df row col = Inr t
     \<and> total (counts t)
         = length (filter (\<lambda>r. \<not> isna (at_col row r) \<and> \<not> isna (at_col col r)) (records df))
     \<and> ((\<forall>r\<in>set (records df). \<not> isna (at_col row r) \<and> \<not> isna (at_col col r))
          \<longrightarrow> total (counts t) = length (records df))"
proof -
  let ?t = "crosstab (map (at_col row) (records df)) (map (at_col col) (records df))"
  have r: "build_contingency_table df row col = Inr ?t"
    using assms by (simp add: build_contingency_table_def)
  have t: "total (counts ?t)
         = length (filter (\<lambda>r. \<not> isna (at_col row r) \<and> \<not> isna (at_col col r)) (records df))"
    by (simp add: crosstab_total zip_columns filter_map comp_def)
  have "(\<forall>r\<in>set (records df). \<not> isna (at_col row r) \<and> \<not> isna (at_col col r))
          \<longrightarrow> total (counts ?t) = length (records df)"
    using t by simp
  with r t show ?thesis by blast
qed

lemma gap_frame_table:
  "build_contingency_table gap_frame ''a'' ''b''
     = Inr \<lparr>index = [CStr ''x''], col_labels = [CStr ''u''], counts = [[1]]\<rparr>"
  by (simp add: build_contingency_table_def gap_frame_def crosstab_def group_keys_def
        sort_by_def at_col_def)

text \<open>
  Claim C3 as stated fails: of two records, one missing in the second column, the table
  counts one.
\<close>

theorem build_contingency_table_total_counterexample:
  "build_contingency_table gap_frame ''a'' ''b''
     = Inr \<lparr>index = [CStr ''x''], col_labels = [CStr ''u''], counts = [[1]]\<rparr>
   \<and> total [[1]] = 1 \<and> length (records gap_frame) = 2"
  by (simp add: gap_frame_table total_def) (simp add: gap_frame_def)

text \<open>The hypotheses of C3's theorem hold for a frame of five complete records.\<close>

theorem build_contingency_table_total_witness:
  "''k'' \<in> set (columns five_frame) \<and> ''x'' \<in> set (columns five_frame)
   \<and> (\<exists>t. build_contingency_table five_frame ''k'' ''x'' = Inr t \<and> total (counts t) = 5)"
proof -
  have c: "''k'' \<in> set (columns five_frame)" "''x'' \<in> set (columns five_frame)"
    by (simp_all add: five_frame_def)
  have "\<forall>r\<in>set (records five_frame). \<not> isna (at_col ''k'' r) \<and> \<not> isna (at_col ''x'' r)"
    by (simp add: five_frame_def at_col_def)
  moreover have "length (records five_frame) = 5" by (simp add: five_frame_def)
  ultimately show ?thesis
    using build_contingency_table_total [OF c] c by auto
qed

section \<open>Properties of cleaning\<close>

lemma last_dropWhile: "dropWhile P xs \<noteq> [] \<Longrightarrow> last (dropWhile P xs) = last xs"
  by (induction xs) auto

lemma dropWhile_unchanged: "xs = [] \<or> \<not> P (hd xs) \<Longrightarrow> dropWhile P xs = xs"
  by (cases xs) auto

lemma py_strip_idem: "py_strip (py_strip s) = py_strip s"
proof -
  let ?u = "dropWhile is_space s"
  let ?v = "dropWhile is_space (rev ?u)"
  have t: "py_strip s = rev ?v" by (simp add: py_strip_def)
  have "dropWhile is_space (rev ?v) = rev ?v"
  proof (cases "?v = []")
    case True
    show ?thesis unfolding True by simp
  next
    case False
    have u: "?u \<noteq> []"
    proof
      assume e: "?u = []"
      have "?v = []" unfolding e by simp
      with False show False by blast
    qed
    have "hd (rev ?v) = last ?v" using False by (simp add: hd_rev)
    also have "\<dots> = last (rev ?u)" using False by (rule last_dropWhile)
    also have "\<dots> = hd ?u" using u by (simp add: last_rev)
    finally have "\<not> is_space (hd (rev ?v))" using hd_dropWhile [OF u] by simp
    then show ?thesis by (intro dropWhile_unchanged) simp
  qed
  then have "py_strip (rev ?v) = rev (dropWhile is_space ?v)"
    by (simp add: py_strip_def)
  also have "\<dots> = rev ?v" by simp
  finally show ?thesis by (simp add: t)
qed

lemma clean_cell_eq:
  "clean_cell str_num v =
     CStr (if py_strip (py_str str_num v) \<in> {[], ''nan'', ''None''} then ''Missing''
           else py_strip (py_str str_num v))"
  by (simp add: clean_cell_def astype_str_def fillna_def)

lemma py_strip_Missing: "py_strip ''Missing'' = ''Missing''"
  by (simp add: py_strip_def is_space_def)

lemma clean_cell_idem: "clean_cell str_num (clean_cell str_num v) = clean_cell str_num v"
  by (simp add: clean_cell_eq py_strip_idem py_strip_Missing)

lemma at_col_assign_col:
  "i < length (records df) \<Longrightarrow>
     at_col c' (records (assign_col df c f) ! i)
       = (if c' = c then f (at_col c (records df ! i)) else at_col c' (records df ! i))"
  by (simp add: assign_col_def at_col_def)

lemma clean_categorical_columns_cells:
  "set cols \<subseteq> set (columns df) \<Longrightarrow>
     \<exists>df'. clean_categorical_columns str_num df cols = Inr df'
       \<and> columns df' = columns df \<and> length (records df') = length (records df)
       \<and> (\<forall>i<length (records df). \<forall>c.
             at_col c (records df' ! i)
               = (if c \<in> set cols then clean_cell str_num (at_col c (records df ! i))
                  else at_col c (records df ! i)))"
proof (induction cols arbitrary: df)
  case Nil
  then show ?case by simp
next
  case (Cons c cs)
  let ?d = "assign_col df c (clean_cell str_num)"
  have cin: "c \<in> set (columns df)" using Cons.prems by simp
  have cols: "columns ?d = columns df" and len: "length (records ?d) = length (records df)"
    by (simp_all add: assign_col_def)
  have "set cs \<subseteq> set (columns ?d)" using Cons.prems cols by simp
  from Cons.IH [OF this]
  obtain df' where r: "clean_categorical_columns str_num ?d cs = Inr df'"
    and c': "columns df' = columns ?d" and l': "length (records df') = length (records ?d)"
    and v: "\<forall>i<length (records ?d). \<forall>c'.
             at_col c' (records df' ! i)
               = (if c' \<in> set cs then clean_cell str_num (at_col c' (records ?d ! i))
                  else at_col c' (records ?d ! i))"
    by blast
  have "\<forall>i<length (records df). \<forall>c'.
             at_col c' (records df' ! i)
               = (if c' \<in> set (c # cs) then clean_cell str_num (at_col c' (records df ! i))
                  else at_col c' (records df ! i))"
    using v len by (simp add: at_col_assign_col clean_cell_idem)
  with r c' l' cols len cin show ?case by simp
qed

text \<open>A named column that the frame does not have is a \<^verbatim>\<open>KeyError\<close>.\<close>

lemma clean_categorical_columns_KeyError:
  "\<not> set cols \<subseteq> set (columns df) \<Longrightarrow> clean_categorical_columns str_num df cols = Inl KeyError"
proof (induction cols arbitrary: df)
  case Nil
  then show ?case by simp
next
  case (Cons c cs)
  have "columns (assign_col df c (clean_cell str_num)) = columns df"
    by (simp add: assign_col_def)
  with Cons show ?case by auto
qed

text \<open>
  Claim C9. When the named columns are columns of the frame, cleaning returns a frame with
  as many records, in which every value of a named column is a string: the string form of
  the raw value with the whitespace at both ends removed, or \<^verbatim>\<open>Missing\<close> where that
  is empty, \<^verbatim>\<open>nan\<close> or \<^verbatim>\<open>None\<close>. So the string \<^verbatim>\<open>nan\<close> and a not-a-number
  clean to the same value, as do the string \<^verbatim>\<open>None\<close> and Python's \<^verbatim>\<open>None\<close>, and a
  number becomes the string it prints as.
\<close>

theorem clean_categorical_columns_values:
  assumes "set categorical_cols \<subseteq> set (columns df)"
  shows "\<exists>df'. clean_categorical_columns str_num df categorical_cols = Inr df'
     \<and> length (records df') = length (records df)
     \<and> (\<forall>c\<in>set categorical_cols. \<forall>i<length (records df).
           at_col c (records df' ! i)
             = CStr (if py_strip (py_str str_num (at_col c (records df ! i)))
                          \<in> {[], ''nan'', ''None''}
                     then ''Missing''
                     else py_strip (py_str str_num (at_col c (records df ! i)))))
     \<and> clean_cell str_num (CStr ''nan'') = clean_cell str_num CNaN
     \<and> clean_cell str_num (CStr ''None'') = clean_cell str_num CNone
     \<and> (\<forall>a. clean_cell str_num (CNum a)
              = CStr (if py_strip (str_num a) \<in> {[], ''nan'', ''None''} then ''Missing''
                      else py_strip (str_num a)))"
proof -
  from clean_categorical_columns_cells [OF assms, of str_num]
  obtain df' where r: "clean_categorical_columns str_num df categorical_cols = Inr df'"
    and l: "length (records df') = length (records df)"
    and v: "\<forall>i<length (records df). \<forall>c.
             at_col c (records df' ! i)
               = (if c \<in> set categorical_cols
                  then clean_cell str_num (at_col c (records df ! i))
                  else at_col c (records df ! i))"
    by blast
  have "\<forall>c\<in>set categorical_cols. \<forall>i<length (records df).
           at_col c (records df' ! i)
             = CStr (if py_strip (py_str str_num (at_col c (records df ! i)))
                          \<in> {[], ''nan'', ''None''}
                     then ''Missing''
                     else py_strip (py_str str_num (at_col c (records df ! i))))"
    using v by (simp add: clean_cell_eq)
  moreover have "clean_cell str_num (CStr ''nan'') = clean_cell str_num CNaN"
    "clean_cell str_num (CStr ''None'') = clean_cell str_num CNone"
    by (simp_all add: clean_cell_eq)
  moreover have "\<forall>a. clean_cell str_num (CNum a)
              = CStr (if py_strip (str_num a) \<in> {[], ''nan'', ''None''} then ''Missing''
                      else py_strip (str_num a))"
    by (simp add: clean_cell_eq)
  ultimately show ?thesis using r l by blast
qed

lemma raw_frame_cleaned:
  "clean_categorical_columns (\<lambda>n. ''42'') raw_frame [''c''] =
     Inr \<lparr>columns = [''c''],
          records = [[''c'' \<mapsto> CStr ''a''], [''c'' \<mapsto> CStr ''Missing''],
                     [''c'' \<mapsto> CStr ''Missing''], [''c'' \<mapsto> CStr ''42'']]\<rparr>"
  by (simp add: raw_frame_def assign_col_def at_col_def clean_cell_def astype_str_def
        fillna_def py_strip_def is_space_def)

text \<open>
  The hypothesis of C9's theorem holds for a column holding a padded string, the string
  \<^verbatim>\<open>nan\<close>, a not-a-number and the number 42.
\<close>

theorem clean_categorical_columns_values_witness:
  "set [''c''] \<subseteq> set (columns raw_frame)
   \<and> (\<exists>df'. clean_categorical_columns (\<lambda>n. ''42'') raw_frame [''c''] = Inr df'
         \<and> map (at_col ''c'') (records df')
             = [CStr ''a'', CStr ''Missing'', CStr ''Missing'', CStr ''42''])"
proof -
  have c: "set [''c''] \<subseteq> set (columns raw_frame)" by (simp add: raw_frame_def)
  from clean_categorical_columns_values [OF c, of "\<lambda>n. ''42''"]
  obtain df' where "clean_categorical_columns (\<lambda>n. ''42'') raw_frame [''c''] = Inr df'"
    by blast
  with raw_frame_cleaned c show ?thesis
    by (simp add: at_col_def)
qed

section \<open>Properties of the statistical tests\<close>

subsection \<open>Fisher's exact test\<close>

text \<open>
  Claim C6. \<^verbatim>\<open>fisher_test_if_applicable\<close> never raises; it returns a result, the odds
  ratio and the p-value, exactly when the shape of the table is (2, 2), and \<^verbatim>\<open>None\<close>
  exactly when it is not.
\<close>

theorem fisher_test_if_applicable_iff:
  "(\<forall>e. fisher_test_if_applicable fisher_exact t \<noteq> Inl e)
   \<and> ((\<exists>res. fisher_test_if_applicable fisher_exact t = Inr (Some res)) \<longleftrightarrow> shape t = (2, 2))
   \<and> (fisher_test_if_applicable fisher_exact t = Inr None \<longleftrightarrow> shape t \<noteq> (2, 2))"
  by (simp add: fisher_test_if_applicable_def)

text \<open>The specification's example, the table 10, 20 over 30, 15: the test applies.\<close>

lemma fisher_spec_table:
  "fisher_test_if_applicable fisher_exact spec_table =
     Inr (Some \<lparr>oddsratio = fst (fisher_exact [[10, 20], [30, 15]]),
                fisher_p_value = snd (fisher_exact [[10, 20], [30, 15]])\<rparr>)"
  by (simp add: fisher_test_if_applicable_def spec_table_def shape_def)

subsection \<open>Expected frequencies\<close>

lemma sum_list_rows: "sum_list (concat xss) = sum_list (map sum_list xss)"
  by (induction xss) simp_all

lemma le_sum_list_nat: "x \<in> set xs \<Longrightarrow> (x::nat) \<le> sum_list xs"
  by (induction xs) auto

lemma fsum_Fin: "fsum (map (\<lambda>x. Fin (f x)) xs) = Fin (sum_list (map f xs))"
  by (induction xs) (simp_all add: fsum_def)

lemma sum_list_scaled:
  "sum_list (map (\<lambda>c. a * real c / n) cs) = a * real (sum_list cs) / n"
  by (induction cs) (simp_all add: algebra_simps add_divide_distrib)

lemma sum_list_scaled':
  "sum_list (map (\<lambda>r. real r * b / n) rs) = real (sum_list rs) * b / n"
  by (induction rs) (simp_all add: algebra_simps add_divide_distrib)

lemma sum_col_sums:
  "list_all (\<lambda>r. length r = c) obs \<Longrightarrow> sum_list (col_sums c obs) = total obs"
proof (induction obs)
  case Nil
  show ?case by (simp add: col_sums_def total_def)
next
  case (Cons r obs)
  then have len: "length r = c" and rest: "list_all (\<lambda>r. length r = c) obs" by simp_all
  have "sum_list (col_sums c (r # obs))
        = sum_list (map (\<lambda>j. r ! j) [0..<c]) + sum_list (col_sums c obs)"
    by (simp add: col_sums_def sum_list_addf)
  also have "map (\<lambda>j. r ! j) [0..<c] = r"
    unfolding len [symmetric] by (rule map_nth)
  finally show ?case
    using Cons.IH [OF rest] by (simp add: total_def)
qed

lemma expected_no_zero:
  assumes "0 < total obs" and "list_all (\<lambda>s. 0 < s) (row_sums obs)"
    and "list_all (\<lambda>s. 0 < s) (col_sums c obs)"
  shows "Fin 0 \<notin> set (concat (expected_freq r c obs))"
proof
  assume "Fin 0 \<in> set (concat (expected_freq r c obs))"
  with assms(1) obtain rs cs where "rs \<in> set (row_sums obs)" "cs \<in> set (col_sums c obs)"
    and z: "real rs * real cs / real (total obs) = 0"
    by (auto simp: expected_freq_def)
  with assms(2,3) have "0 < rs" "0 < cs" by (auto simp: list_all_iff)
  with assms(1) z show False by simp
qed

lemma expected_NaN_no_zero:
  "total obs = 0 \<Longrightarrow> Fin 0 \<notin> set (concat (expected_freq r c obs))"
  by (auto simp: expected_freq_def)

lemma dof_shape: "int (r * c) - int (r + c) + 2 - 1 = (int r - 1) * (int c - 1)"
  by (simp add: algebra_simps)

lemma chi2_contingency_returns:
  assumes "0 < table_size t"
    and "Fin 0 \<notin> set (concat (expected_freq (length (index t)) (length (col_labels t)) (counts t)))"
  shows "\<exists>s p. chi2_contingency stat correction t
           = Inr (s, p, (int (length (index t)) - 1) * (int (length (col_labels t)) - 1),
                  expected_freq (length (index t)) (length (col_labels t)) (counts t))"
proof -
  have "length (index t) * length (col_labels t) \<noteq> 0"
    using assms(1) by (simp add: table_size_def)
  with assms(2) show ?thesis
    unfolding chi2_contingency_def Let_def dof_shape
    by (cases "(int (length (index t)) - 1) * (int (length (col_labels t)) - 1) = 0") simp_all
qed

subsection \<open>The chi-square test\<close>

text \<open>
  Claim C7, as the code has it, in exact arithmetic. For a well-formed table that has a
  cell and whose row totals and column totals are all positive, \<^verbatim>\<open>chi_square_test\<close>
  returns; the degrees of freedom are (R - 1) * (C - 1); the expected frequencies add up to
  the total of the observed counts, each of their rows to the total of the observed row and
  each of their columns to the total of the observed column. Rounding is outside the
  model, so the equalities are exact.
\<close>

theorem chi_square_test_dof_expected:
  assumes wf: "well_formed t" and ne: "0 < table_size t"
    and rp: "list_all (\<lambda>s. 0 < s) (row_sums (counts t))"
    and cp: "list_all (\<lambda>s. 0 < s) (col_sums (length (col_labels t)) (counts t))"
  shows "\<exists>res. chi_square_test stat t correction = Inr res
     \<and> dof res = (int (length (index t)) - 1) * (int (length (col_labels t)) - 1)
     \<and> fsum (concat (expected res)) = Fin (real (total (counts t)))
     \<and> map fsum (expected res) = map (\<lambda>s. Fin (real s)) (row_sums (counts t))
     \<and> map (\<lambda>j. fsum (map (\<lambda>r. r ! j) (expected res))) [0..<length (col_labels t)]
         = map (\<lambda>s. Fin (real s)) (col_sums (length (col_labels t)) (counts t))"
proof -
  let ?R = "length (index t)" and ?C = "length (col_labels t)"
  let ?obs = "counts t"
  let ?n = "total ?obs"
  let ?RS = "row_sums ?obs" and ?CS = "col_sums ?C ?obs"
  let ?E = "expected_freq ?R ?C ?obs"
  from ne have R: "0 < ?R" and C: "0 < ?C" by (simp_all add: table_size_def)
  from wf have lo: "length ?obs = ?R" and rect: "list_all (\<lambda>r. length r = ?C) ?obs"
    by (simp_all add: well_formed_def)
  from lo R have "?RS \<noteq> []" by (auto simp: row_sums_def)
  then obtain s0 where "s0 \<in> set ?RS" by (cases ?RS) auto
  with rp have "0 < s0" by (simp add: list_all_iff)
  with \<open>s0 \<in> set ?RS\<close> have npos: "0 < ?n"
    using le_sum_list_nat [of s0 ?RS] by (simp add: total_def row_sums_def)
  have sumR: "sum_list ?RS = ?n" by (simp add: total_def row_sums_def)
  have sumC: "sum_list ?CS = ?n" using rect by (rule sum_col_sums)
  have lenC: "length ?CS = ?C" by (simp add: col_sums_def)
  have E: "?E = map (\<lambda>rs. map (\<lambda>cs. Fin (real rs * real cs / real ?n)) ?CS) ?RS"
    using npos by (simp add: expected_freq_def)
  have nz: "Fin 0 \<notin> set (concat ?E)"
    using npos rp cp by (rule expected_no_zero)
  from chi2_contingency_returns [OF ne nz, of stat correction]
  obtain s p where c: "chi2_contingency stat correction t
           = Inr (s, p, (int ?R - 1) * (int ?C - 1), ?E)" by blast
  let ?res = "\<lparr>chi2 = s, p_value = p, dof = (int ?R - 1) * (int ?C - 1), expected = ?E\<rparr>"
  have r: "chi_square_test stat t correction = Inr ?res"
    using ne c by (simp add: chi_square_test_def)
  have rowm: "map fsum ?E = map (\<lambda>s. Fin (real s)) ?RS"
    using npos sumC by (simp add: E comp_def fsum_Fin sum_list_scaled)
  have "fsum (concat ?E) = fsum (map (\<lambda>x. Fin x)
          (concat (map (\<lambda>rs. map (\<lambda>cs. real rs * real cs / real ?n) ?CS) ?RS)))"
    by (simp add: E map_concat comp_def)
  also have "\<dots> = Fin (sum_list (concat (map (\<lambda>rs. map (\<lambda>cs. real rs * real cs / real ?n) ?CS) ?RS)))"
    using fsum_Fin [of "\<lambda>x. x"] by simp
  also have "sum_list (concat (map (\<lambda>rs. map (\<lambda>cs. real rs * real cs / real ?n) ?CS) ?RS))
             = sum_list (map (\<lambda>rs. real rs) ?RS)"
    using npos sumC by (simp add: sum_list_rows comp_def sum_list_scaled)
  also have "\<dots> = real ?n"
    using sumR by (simp add: sum_list_of_nat)
  finally have tot: "fsum (concat ?E) = Fin (real ?n)" .
  have colm: "map (\<lambda>j. fsum (map (\<lambda>r. r ! j) ?E)) [0..<?C] = map (\<lambda>s. Fin (real s)) ?CS"
  proof (rule nth_equalityI)
    show "length (map (\<lambda>j. fsum (map (\<lambda>r. r ! j) ?E)) [0..<?C])
          = length (map (\<lambda>s. Fin (real s)) ?CS)"
      by (simp add: lenC)
  next
    fix j assume "j < length (map (\<lambda>j. fsum (map (\<lambda>r. r ! j) ?E)) [0..<?C])"
    then have j: "j < ?C" by simp
    then have "map (\<lambda>r. r ! j) ?E = map (\<lambda>rs. Fin (real rs * real (?CS ! j) / real ?n)) ?RS"
      using lenC by (simp add: E comp_def)
    then have "fsum (map (\<lambda>r. r ! j) ?E) = Fin (real (sum_list ?RS) * real (?CS ! j) / real ?n)"
      by (simp add: fsum_Fin sum_list_scaled')
    also have "\<dots> = Fin (real (?CS ! j))"
      using npos sumR by simp
    finally show "map (\<lambda>j. fsum (map (\<lambda>r. r ! j) ?E)) [0..<?C] ! j
                  = map (\<lambda>s. Fin (real s)) ?CS ! j"
      using j lenC by simp
  qed
  from r rowm tot colm show ?thesis
    by (intro exI [of _ ?res]) simp
qed

text \<open>
  The hypotheses of C7's theorem hold for the specification's example, the table 10, 20
  over 30, 15, which has one degree of freedom.
\<close>

theorem chi_square_test_dof_expected_witness:
  "well_formed spec_table \<and> 0 < table_size spec_table
   \<and> list_all (\<lambda>s. 0 < s) (row_sums (counts spec_table))
   \<and> list_all (\<lambda>s. 0 < s) (col_sums (length (col_labels spec_table)) (counts spec_table))
   \<and> (\<forall>stat correction. \<exists>res. chi_square_test stat spec_table correction = Inr res
         \<and> dof res = 1 \<and> fsum (concat (expected res)) = Fin 75)"
proof -
  have h: "well_formed spec_table" "0 < table_size spec_table"
    "list_all (\<lambda>s. 0 < s) (row_sums (counts spec_table))"
    "list_all (\<lambda>s. 0 < s) (col_sums (length (col_labels spec_table)) (counts spec_table))"
    by (simp_all add: spec_table_def well_formed_def table_size_def row_sums_def col_sums_def)
  have v: "length (index spec_table) = 2" "length (col_labels spec_table) = 2"
    "total (counts spec_table) = 75"
    by (simp_all add: spec_table_def total_def)
  have "\<exists>res. chi_square_test stat spec_table correction = Inr res
         \<and> dof res = 1 \<and> fsum (concat (expected res)) = Fin 75" for stat correction
    using chi_square_test_dof_expected [OF h, of stat correction] v by auto
  with h show ?thesis by blast
qed

text \<open>
  Claim C7 as stated fails: a table that has cells and a positive total but a column of
  zeros makes \<^verbatim>\<open>chi_square_test\<close> raise.
\<close>

theorem chi_square_test_zero_column_counterexample:
  "\<forall>stat correction.
     0 < table_size zero_column_table \<and> 0 < total (counts zero_column_table)
     \<and> chi_square_test stat zero_column_table correction = Inl ValueError"
  by (simp add: chi_square_test_def chi2_contingency_def zero_column_table_def table_size_def
        total_def expected_freq_def row_sums_def col_sums_def)

subsection \<open>Cramer's V\<close>

text \<open>
  Claim C2, as the code has it. \<^verbatim>\<open>cramers_v\<close> returns not-a-number for a table that has
  cells and a total of zero, and returns 0.0 for a well-formed table with one row or one
  column whose row totals and column totals are all positive.
\<close>

theorem cramers_v_special_cases:
  "(0 < table_size t \<longrightarrow> total (counts t) = 0 \<longrightarrow> cramers_v stat t = Inr NaN)
   \<and> (well_formed t \<longrightarrow> min (length (index t)) (length (col_labels t)) = 1 \<longrightarrow>
        list_all (\<lambda>s. 0 < s) (row_sums (counts t)) \<longrightarrow>
        list_all (\<lambda>s. 0 < s) (col_sums (length (col_labels t)) (counts t)) \<longrightarrow>
        cramers_v stat t = Inr (Fin 0))"
proof (intro conjI impI)
  assume ne: "0 < table_size t" and z: "total (counts t) = 0"
  from chi2_contingency_returns [OF ne expected_NaN_no_zero [OF z], of stat True]
  obtain s p where "chi2_contingency stat True t
           = Inr (s, p, (int (length (index t)) - 1) * (int (length (col_labels t)) - 1),
                  expected_freq (length (index t)) (length (col_labels t)) (counts t))" by blast
  with z show "cramers_v stat t = Inr NaN"
    by (simp add: cramers_v_def)
next
  let ?R = "length (index t)" and ?C = "length (col_labels t)"
  let ?RS = "row_sums (counts t)"
  assume wf: "well_formed t" and k: "min ?R ?C = 1"
    and rp: "list_all (\<lambda>s. 0 < s) ?RS"
    and cp: "list_all (\<lambda>s. 0 < s) (col_sums ?C (counts t))"
  from k have R: "0 < ?R" and C: "0 < ?C" by (auto simp: min_def split: if_splits)
  then have ne: "0 < table_size t" by (simp add: table_size_def)
  from wf R have "?RS \<noteq> []" by (auto simp: row_sums_def well_formed_def)
  then obtain s0 where "s0 \<in> set ?RS" by (cases ?RS) auto
  with rp have "0 < s0" by (simp add: list_all_iff)
  with \<open>s0 \<in> set ?RS\<close> have npos: "0 < total (counts t)"
    using le_sum_list_nat [of s0 ?RS] by (simp add: total_def row_sums_def)
  from chi2_contingency_returns [OF ne expected_no_zero [OF npos rp cp], of stat True]
  obtain s p where "chi2_contingency stat True t
           = Inr (s, p, (int ?R - 1) * (int ?C - 1), expected_freq ?R ?C (counts t))" by blast
  with npos k show "cramers_v stat t = Inr (Fin 0)"
    by (simp add: cramers_v_def shape_def)
qed

text \<open>
  The hypotheses of C2's theorem hold for a table of one row of zeros and for a table of
  one row of positive counts.
\<close>

theorem cramers_v_special_cases_witness:
  "0 < table_size zero_table \<and> total (counts zero_table) = 0
   \<and> (\<forall>stat. cramers_v stat zero_table = Inr NaN)
   \<and> well_formed one_row_table
   \<and> min (length (index one_row_table)) (length (col_labels one_row_table)) = 1
   \<and> list_all (\<lambda>s. 0 < s) (row_sums (counts one_row_table))
   \<and> list_all (\<lambda>s. 0 < s) (col_sums (length (col_labels one_row_table)) (counts one_row_table))
   \<and> (\<forall>stat. cramers_v stat one_row_table = Inr (Fin 0))"
proof -
  have a: "0 < table_size zero_table" "total (counts zero_table) = 0"
    by (simp_all add: zero_table_def table_size_def total_def)
  have b: "well_formed one_row_table"
    "min (length (index one_row_table)) (length (col_labels one_row_table)) = 1"
    "list_all (\<lambda>s. 0 < s) (row_sums (counts one_row_table))"
    "list_all (\<lambda>s. 0 < s) (col_sums (length (col_labels one_row_table)) (counts one_row_table))"
    by (simp_all add: one_row_table_def well_formed_def row_sums_def col_sums_def)
  have "cramers_v stat zero_table = Inr NaN" for stat
    using cramers_v_special_cases [of zero_table stat] a by blast
  moreover have "cramers_v stat one_row_table = Inr (Fin 0)" for stat
    using cramers_v_special_cases [of one_row_table stat] b by blast
  ultimately show ?thesis using a b by blast
qed

text \<open>
  Claim C2 as stated fails: for the table with no cell, whose total is zero,
  \<^verbatim>\<open>cramers_v\<close> raises and does not return not-a-number; and for a table of one row with
  a zero cell it raises and does not return 0.0.
\<close>

theorem cramers_v_raises_counterexample:
  "\<forall>stat.
     total (counts empty_table) = 0 \<and> cramers_v stat empty_table = Inl ValueError
     \<and> min (length (index one_row_zero_cell_table)) (length (col_labels one_row_zero_cell_table)) = 1
     \<and> cramers_v stat one_row_zero_cell_table = Inl ValueError"
  by (simp add: cramers_v_def chi2_contingency_def empty_table_def one_row_zero_cell_table_def
        total_def expected_freq_def row_sums_def col_sums_def)

subsection \<open>Pairwise post-hoc tests\<close>

lemma filter_eq_nth:
  "distinct xs \<Longrightarrow> i < length xs \<Longrightarrow> filter (\<lambda>x. x = xs ! i) xs = [xs ! i]"
proof (induction xs arbitrary: i)
  case Nil
  then show ?case by simp
next
  case (Cons x xs)
  show ?case
  proof (cases i)
    case 0
    have "filter (\<lambda>y. y = x) xs = []"
      using Cons.prems(1) by (auto simp: filter_empty_conv)
    with 0 show ?thesis by simp
  next
    case (Suc j)
    with Cons.prems have j: "j < length xs" and d: "distinct xs" and nx: "x \<notin> set xs"
      by simp_all
    from j nx have "xs ! j \<noteq> x" by (metis nth_mem)
    with Suc Cons.IH [OF d j] show ?thesis by simp
  qed
qed

lemma zip_filter_nth:
  "distinct xs \<Longrightarrow> length ys = length xs \<Longrightarrow> i < length xs \<Longrightarrow>
     map snd (filter (\<lambda>p. fst p = xs ! i) (zip xs ys)) = [ys ! i]"
proof (induction xs arbitrary: ys i)
  case Nil
  then show ?case by simp
next
  case (Cons x xs)
  from Cons.prems(2) obtain y ys' where ys: "ys = y # ys'" and len: "length ys' = length xs"
    by (cases ys) auto
  from Cons.prems(1) have d: "distinct xs" and nx: "x \<notin> set xs" by simp_all
  show ?case
  proof (cases i)
    case 0
    have "filter (\<lambda>p. fst p = x) (zip xs ys') = []"
      using nx by (auto simp: filter_empty_conv dest: set_zip_leftD)
    with 0 ys show ?thesis by simp
  next
    case (Suc j)
    with Cons.prems(3) have j: "j < length xs" by simp
    with nx have "xs ! j \<noteq> x" by (metis nth_mem)
    with Suc ys Cons.IH [OF d len j] show ?thesis by simp
  qed
qed

lemma loc_rows_pair:
  assumes "well_formed t" and "distinct (index t)"
    and "i < length (index t)" and "j < length (index t)"
  shows "loc_rows t [index t ! i, index t ! j]
         = \<lparr>index = [index t ! i, index t ! j], col_labels = col_labels t,
            counts = [counts t ! i, counts t ! j]\<rparr>"
proof -
  from assms(1) have len: "length (counts t) = length (index t)"
    by (simp add: well_formed_def)
  show ?thesis
    using assms(2-4) len
    by (simp add: loc_rows_def filter_eq_nth zip_filter_nth)
qed

lemma pair_chi2_returns:
  assumes "pair_defined (length cl) ri rj"
  shows "\<exists>x. chi2_contingency stat True
               \<lparr>index = [a, b], col_labels = cl, counts = [ri, rj]\<rparr> = Inr x"
proof -
  let ?t = "\<lparr>index = [a, b], col_labels = cl, counts = [ri, rj]\<rparr>"
  let ?c = "length cl"
  from assms have c: "0 < ?c" by (simp add: pair_defined_def)
  then have ne: "0 < table_size ?t" by (simp add: table_size_def)
  have tot: "total [ri, rj] = sum_list ri + sum_list rj" by (simp add: total_def)
  have "Fin 0 \<notin> set (concat (expected_freq (length [a, b]) ?c [ri, rj]))"
  proof (cases "total [ri, rj] = 0")
    case True
    then show ?thesis by (rule expected_NaN_no_zero)
  next
    case False
    with assms tot have r: "0 < sum_list ri" "0 < sum_list rj"
      and k: "list_all (\<lambda>k. 0 < ri ! k + rj ! k) [0..<?c]"
      by (auto simp: pair_defined_def)
    from False have "0 < total [ri, rj]" by simp
    moreover from r have "list_all (\<lambda>s. 0 < s) (row_sums [ri, rj])"
      by (simp add: row_sums_def)
    moreover from k have "list_all (\<lambda>s. 0 < s) (col_sums ?c [ri, rj])"
      by (simp add: col_sums_def list_all_iff)
    ultimately show ?thesis by (rule expected_no_zero)
  qed
  then have nz: "Fin 0 \<notin> set (concat (expected_freq (length (index ?t))
                                   (length (col_labels ?t)) (counts ?t)))"
    by simp
  from chi2_contingency_returns [OF ne nz, of stat True] show ?thesis by blast
qed

lemma mem_row_pairs: "(i, j) \<in> set (row_pairs n) \<longleftrightarrow> i < j \<and> j < n"
  by (auto simp: row_pairs_def image_iff)

lemma sum_below: "(\<Sum>i<n. i) = n choose 2"
  by (induction n) (simp_all add: numeral_2_eq_2)

lemma length_row_pairs: "length (row_pairs n) = n choose 2"
proof -
  have "length (row_pairs n) = sum_list (map (\<lambda>i. n - Suc i) [0..<n])"
    by (simp add: row_pairs_def length_concat comp_def)
  also have "\<dots> = (\<Sum>i<n. n - Suc i)"
    by (simp add: interv_sum_list_conv_sum_set_nat atLeast0LessThan)
  also have "\<dots> = (\<Sum>i<n. i)"
    by (rule sum.nat_diff_reindex)
  finally show ?thesis by (simp add: sum_below)
qed

lemma traverse_map:
  "(\<And>x. x \<in> set xs \<Longrightarrow> f x = Inr (g x)) \<Longrightarrow> traverse f xs = Inr (map g xs)"
  by (induction xs) simp_all

lemma bonferroni_fields:
  "row1 (bonferroni m alpha (a, b, s, p)) = a"
  "row2 (bonferroni m alpha (a, b, s, p)) = b"
  "p_raw (bonferroni m alpha (a, b, s, p)) = p"
  "0 < m \<Longrightarrow> p_adj (bonferroni m alpha (a, b, s, p)) = py_min (Fin 1) (fmul p m)"
  "significant (bonferroni m alpha (a, b, s, p))
     = flt (p_adj (bonferroni m alpha (a, b, s, p))) alpha"
  by (simp_all add: bonferroni_def Let_def)

text \<open>
  Where the analysis returns, its result is as promised. With fewer than two rows
  \<^verbatim>\<open>pairwise_chi2_posthoc\<close> returns the empty result. For a well-formed table with
  distinct row labels in which no test of a pair of rows raises (the table has a column, and
  the two rows are zero throughout or have positive totals and no column that is zero in
  both), it returns one row for each pair of row positions \<open>i < j\<close>, in the order of the
  loops, so C(R, 2) rows; each carries the labels of its pair, its adjusted p-value is the
  minimum of 1 and the raw p-value times C(R, 2), and it is significant exactly when the
  adjusted p-value is below \<^verbatim>\<open>alpha\<close>.
\<close>

lemma pairwise_chi2_posthoc_rows:
  "(length (index t) < 2 \<longrightarrow> pairwise_chi2_posthoc stat t alpha = Inr [])
   \<and> (well_formed t \<longrightarrow> distinct (index t) \<longrightarrow>
        list_all (\<lambda>ij. pair_defined (length (col_labels t)) (counts t ! fst ij) (counts t ! snd ij))
          (row_pairs (length (index t))) \<longrightarrow>
        (\<exists>res. pairwise_chi2_posthoc stat t alpha = Inr res
           \<and> length res = length (index t) choose 2
           \<and> map (\<lambda>r. (row1 r, row2 r)) res
               = map (\<lambda>ij. (index t ! fst ij, index t ! snd ij)) (row_pairs (length (index t)))
           \<and> list_all (\<lambda>r. p_adj r = py_min (Fin 1) (fmul (p_raw r) (length (index t) choose 2))
                            \<and> significant r = flt (p_adj r) alpha) res))"
proof (intro conjI impI)
  assume "length (index t) < 2"
  then have "length (row_pairs (length (index t))) = 0"
    by (simp add: length_row_pairs)
  then have "row_pairs (length (index t)) = []" by simp
  then show "pairwise_chi2_posthoc stat t alpha = Inr []"
    by (simp add: pairwise_chi2_posthoc_def)
next
  let ?R = "length (index t)" and ?C = "length (col_labels t)"
  let ?ps = "row_pairs ?R"
  let ?m = "?R choose 2"
  assume wf: "well_formed t" and d: "distinct (index t)"
    and pd: "list_all (\<lambda>ij. pair_defined ?C (counts t ! fst ij) (counts t ! snd ij)) ?ps"
  define g where "g ij =
     (index t ! fst ij, index t ! snd ij,
      fst (projr (chi2_contingency stat True (loc_rows t [index t ! fst ij, index t ! snd ij]))),
      fst (snd (projr (chi2_contingency stat True
                        (loc_rows t [index t ! fst ij, index t ! snd ij])))))" for ij
  have step: "pair_test stat t ij = Inr (g ij)" if "ij \<in> set ?ps" for ij
  proof -
    obtain i j where ij: "ij = (i, j)" by (cases ij)
    with that have lt: "i < ?R" "j < ?R" by (auto simp: mem_row_pairs)
    from pd that ij have "pair_defined ?C (counts t ! i) (counts t ! j)"
      by (auto simp: list_all_iff)
    from pair_chi2_returns [OF this, of stat "index t ! i" "index t ! j"]
    obtain x where "chi2_contingency stat True (loc_rows t [index t ! i, index t ! j]) = Inr x"
      unfolding loc_rows_pair [OF wf d lt] by blast
    then show ?thesis
      by (cases x) (simp add: pair_test_def g_def ij Let_def)
  qed
  have tr: "traverse (pair_test stat t) ?ps = Inr (map g ?ps)"
    by (rule traverse_map) (rule step)
  have len: "length ?ps = ?m" by (rule length_row_pairs)
  let ?res = "map (bonferroni ?m alpha) (map g ?ps)"
  have r: "pairwise_chi2_posthoc stat t alpha = Inr ?res"
    by (simp add: pairwise_chi2_posthoc_def tr len)
  have l: "length ?res = ?m" by (simp add: len)
  have lab: "map (\<lambda>r. (row1 r, row2 r)) ?res
             = map (\<lambda>ij. (index t ! fst ij, index t ! snd ij)) ?ps"
    by (simp add: comp_def g_def bonferroni_fields)
  have adj: "list_all (\<lambda>r. p_adj r = py_min (Fin 1) (fmul (p_raw r) ?m)
                            \<and> significant r = flt (p_adj r) alpha) ?res"
  proof -
    have "p_adj (bonferroni ?m alpha (g ij))
            = py_min (Fin 1) (fmul (p_raw (bonferroni ?m alpha (g ij))) ?m)
          \<and> significant (bonferroni ?m alpha (g ij))
            = flt (p_adj (bonferroni ?m alpha (g ij))) alpha" if "ij \<in> set ?ps" for ij
    proof -
      from that have "0 < length ?ps" by (cases ?ps) auto
      then have "0 < ?m" using len by simp
      then show ?thesis by (simp add: g_def bonferroni_fields)
    qed
    then show ?thesis by (simp add: list_all_iff)
  qed
  from r l lab adj
  show "\<exists>res. pairwise_chi2_posthoc stat t alpha = Inr res
           \<and> length res = ?m
           \<and> map (\<lambda>r. (row1 r, row2 r)) res
               = map (\<lambda>ij. (index t ! fst ij, index t ! snd ij)) ?ps
           \<and> list_all (\<lambda>r. p_adj r = py_min (Fin 1) (fmul (p_raw r) ?m)
                            \<and> significant r = flt (p_adj r) alpha) res"
    by blast
qed

lemma row_pairs_3: "row_pairs 3 = [(0, 1), (0, 2), (1, 2)]"
  by code_simp

text \<open>
  A table of one row gives the empty result, and a table of three rows without a zero
  gives three result rows.
\<close>

lemma pairwise_chi2_posthoc_rows_examples:
  "length (index one_row_table) < 2
   \<and> (\<forall>stat alpha. pairwise_chi2_posthoc stat one_row_table alpha = Inr [])
   \<and> well_formed full_table \<and> distinct (index full_table)
   \<and> list_all (\<lambda>ij. pair_defined (length (col_labels full_table))
                      (counts full_table ! fst ij) (counts full_table ! snd ij))
        (row_pairs (length (index full_table)))
   \<and> (\<forall>stat alpha. \<exists>res. pairwise_chi2_posthoc stat full_table alpha = Inr res
         \<and> length res = 3
         \<and> map (\<lambda>r. (row1 r, row2 r)) res
             = [(''r1'', ''r2''), (''r1'', ''r3''), (''r2'', ''r3'')])"
proof -
  have a: "length (index one_row_table) < 2" by (simp add: one_row_table_def)
  have b: "well_formed full_table" "distinct (index full_table)"
    by (simp_all add: full_table_def well_formed_def)
  have R: "length (index full_table) = 3" by (simp add: full_table_def)
  have c: "list_all (\<lambda>ij. pair_defined (length (col_labels full_table))
                      (counts full_table ! fst ij) (counts full_table ! snd ij))
        (row_pairs (length (index full_table)))"
    unfolding R row_pairs_3 by (simp add: full_table_def pair_defined_def)
  have ch: "(3::nat) choose 2 = 3" by (simp add: choose_two)
  have l: "map (\<lambda>ij. (index full_table ! fst ij, index full_table ! snd ij)) (row_pairs 3)
           = [(''r1'', ''r2''), (''r1'', ''r3''), (''r2'', ''r3'')]"
    unfolding row_pairs_3 by (simp add: full_table_def)
  have one: "pairwise_chi2_posthoc stat one_row_table alpha = Inr []" for stat alpha
    using pairwise_chi2_posthoc_rows [of one_row_table stat alpha, THEN conjunct1] a
    by (rule mp)
  have three: "\<exists>res. pairwise_chi2_posthoc stat full_table alpha = Inr res
         \<and> length res = 3
         \<and> map (\<lambda>r. (row1 r, row2 r)) res
             = [(''r1'', ''r2''), (''r1'', ''r3''), (''r2'', ''r3'')]" for stat alpha
  proof -
    from pairwise_chi2_posthoc_rows [of full_table stat alpha, THEN conjunct2, rule_format,
        OF b c]
    obtain res where r1: "pairwise_chi2_posthoc stat full_table alpha = Inr res"
      and r2: "length res = length (index full_table) choose 2"
      and r3: "map (\<lambda>r. (row1 r, row2 r)) res
               = map (\<lambda>ij. (index full_table ! fst ij, index full_table ! snd ij))
                   (row_pairs (length (index full_table)))"
      by blast
    from r2 have "length res = 3" unfolding R ch .
    moreover from r3 have "map (\<lambda>r. (row1 r, row2 r)) res
             = [(''r1'', ''r2''), (''r1'', ''r3''), (''r2'', ''r3'')]"
      unfolding R l .
    ultimately show ?thesis using r1 by (intro exI [of _ res]) simp
  qed
  from a one b c three show ?thesis by (intro conjI allI)
qed

text \<open>
  A table of three rows in which the first two rows are both zero in the second column:
  the test of that pair raises, and so does the whole post-hoc analysis.
\<close>

lemma three_row_table_raises:
  "pairwise_chi2_posthoc stat three_row_table alpha = Inl ValueError"
proof -
  have p: "pair_test stat three_row_table (0, Suc 0) = Inl ValueError"
    by (simp add: pair_test_def three_row_table_def loc_rows_def chi2_contingency_def
          expected_freq_def total_def row_sums_def col_sums_def Let_def)
  have R: "length (index three_row_table) = 3"
    by (simp add: three_row_table_def)
  show ?thesis
    unfolding pairwise_chi2_posthoc_def R row_pairs_3 by (simp add: p)
qed

text \<open>
  Claim C5. For every contingency table with R row categories the post-hoc result should
  hold C(R, 2) rows, one for each pair of rows, as the docstring of
  \<^verbatim>\<open>pairwise_chi2_posthoc\<close> says (tests between all pairs of rows) and its comment before
  the test of a pair (the test may be invalid, but we still compute). The code does not do
  that at the table of three rows 1, 0 and 1, 0 and 0, 1: it is well-formed, has distinct
  labels and positive row and column totals, and \<^verbatim>\<open>chi_square_test\<close> accepts it, but
  \<^verbatim>\<open>pairwise_chi2_posthoc\<close> raises \<^verbatim>\<open>ValueError\<close> and returns no row at all.
\<close>

theorem pairwise_chi2_posthoc_raises_on_valid_table:
  "well_formed three_row_table \<and> distinct (index three_row_table)
   \<and> length (index three_row_table) = 3
   \<and> list_all (\<lambda>s. 0 < s) (row_sums (counts three_row_table))
   \<and> list_all (\<lambda>s. 0 < s)
        (col_sums (length (col_labels three_row_table)) (counts three_row_table))
   \<and> (\<forall>stat correction. \<exists>res. chi_square_test stat three_row_table correction = Inr res)
   \<and> (\<forall>stat alpha. pairwise_chi2_posthoc stat three_row_table alpha = Inl ValueError)"
proof -
  have h: "well_formed three_row_table" "distinct (index three_row_table)"
    "length (index three_row_table) = 3"
    by (simp_all add: three_row_table_def well_formed_def)
  have rp: "list_all (\<lambda>s. 0 < s) (row_sums (counts three_row_table))"
    and cp: "list_all (\<lambda>s. 0 < s)
        (col_sums (length (col_labels three_row_table)) (counts three_row_table))"
    and npos: "0 < total (counts three_row_table)"
    and ne: "0 < table_size three_row_table"
    by (simp_all add: three_row_table_def row_sums_def col_sums_def total_def table_size_def)
  have "\<exists>res. chi_square_test stat three_row_table correction = Inr res" for stat correction
  proof -
    from chi2_contingency_returns [OF ne expected_no_zero [OF npos rp cp], of stat correction]
    obtain s p where "chi2_contingency stat correction three_row_table
        = Inr (s, p, (int (length (index three_row_table)) - 1)
                       * (int (length (col_labels three_row_table)) - 1),
               expected_freq (length (index three_row_table))
                 (length (col_labels three_row_table)) (counts three_row_table))"
      by blast
    with ne show ?thesis by (simp add: chi_square_test_def)
  qed
  then have c: "\<forall>stat correction. \<exists>res. chi_square_test stat three_row_table correction = Inr res"
    by blast
  have r: "\<forall>stat alpha. pairwise_chi2_posthoc stat three_row_table alpha = Inl ValueError"
    by (simp add: three_row_table_raises)
  show ?thesis
    by (intro conjI h rp cp c r)
qed

text \<open>
  Claim C10. \<^verbatim>\<open>pairwise_chi2_posthoc\<close> is not total on valid contingency tables: there
  is a well-formed table of counts with distinct row labels, at least two rows, a positive
  total and even positive row and column totals, with two rows that are both zero in one
  column, on which it raises \<^verbatim>\<open>ValueError\<close> whatever the statistic and the threshold.
\<close>

theorem pairwise_chi2_posthoc_not_total:
  "\<exists>t :: string table.
     well_formed t \<and> distinct (index t) \<and> 2 \<le> length (index t) \<and> 0 < total (counts t)
     \<and> list_all (\<lambda>s. 0 < s) (row_sums (counts t))
     \<and> list_all (\<lambda>s. 0 < s) (col_sums (length (col_labels t)) (counts t))
     \<and> (\<exists>i j k. i < j \<and> j < length (index t) \<and> k < length (col_labels t)
            \<and> counts t ! i ! k = 0 \<and> counts t ! j ! k = 0)
     \<and> (\<forall>stat alpha. pairwise_chi2_posthoc stat t alpha = Inl ValueError)"
proof (intro exI [of _ three_row_table] conjI allI)
  show "well_formed three_row_table" "distinct (index three_row_table)"
    "2 \<le> length (index three_row_table)" "0 < total (counts three_row_table)"
    "list_all (\<lambda>s. 0 < s) (row_sums (counts three_row_table))"
    "list_all (\<lambda>s. 0 < s) (col_sums (length (col_labels three_row_table)) (counts three_row_table))"
    by (simp_all add: three_row_table_def well_formed_def total_def row_sums_def col_sums_def)
  have "(0::nat) < 1 \<and> 1 < length (index three_row_table)
        \<and> 1 < length (col_labels three_row_table)
        \<and> counts three_row_table ! 0 ! 1 = 0 \<and> counts three_row_table ! 1 ! 1 = 0"
    by (simp add: three_row_table_def)
  then show "\<exists>i j k. i < j \<and> j < length (index three_row_table)
            \<and> k < length (col_labels three_row_table)
            \<and> counts three_row_table ! i ! k = 0 \<and> counts three_row_table ! j ! k = 0"
    by blast
  fix stat alpha
  show "pairwise_chi2_posthoc stat three_row_table alpha = Inl ValueError"
    by (rule three_row_table_raises)
qed

end
